theory Spec2Isabelle
  imports Main "HOL-Library.Word"
begin

section \<open>Data model of the block generator (core/generator/block.go)\<close>

text \<open>
  Go's \<^verbatim>\<open>[]byte\<close> is a list of 8-bit words. A slice that may be \<^verbatim>\<open>nil\<close> and is
  tested against \<^verbatim>\<open>nil\<close> (a signer's reply, a slot of \<^verbatim>\<open>goodSigs\<close>) is a
  \<open>bytes option\<close>, \<open>None\<close> being \<^verbatim>\<open>nil\<close>.
\<close>

type_synonym bytes = "8 word list"

text \<open>
  Errors are values. \<open>Wrap e msg\<close> is \<^verbatim>\<open>errors.Wrap(e, msg)\<close>; \<open>ErrGotOf a m\<close> is
  \<^verbatim>\<open>fmt.Errorf("got %d of %d needed signatures", a, m)\<close>, kept as its two numbers;
  \<open>ErrExternal\<close> stands for the errors of the collaborators (database, chain, parser).
\<close>

datatype error =
    ErrTooFewSigners
  | ErrDuplicateBlock
  | ErrGotOf int int
  | ErrExternal string
  | Wrap error string

text \<open>
  The ways in which a call does not return to its caller: \<^verbatim>\<open>log.Fatalkv\<close> exits the
  process, a \<^verbatim>\<open>nil\<close> pointer is dereferenced, a slice is indexed out of range, or the
  receive \<^verbatim>\<open><-done\<close> waits for a signer that never answers.
\<close>

datatype abort = FatalExit error | NilDereference | IndexOutOfRange | BlockedOnDone

datatype 'a res = Ok 'a | Err error | Abort abort

text \<open>
  \<^verbatim>\<open>legacy.Block\<close>, with the fields this file reads or writes. \<^verbatim>\<open>Height\<close> is a
  \<^verbatim>\<open>uint64\<close>.
\<close>

record 'tx block =
  Height :: "64 word"
  Transactions :: "'tx list"
  ConsensusProgram :: bytes
  Witness :: "bytes list"

text \<open>
  What a cycle does to its collaborators is recorded as a trace of events, in program
  order: each call of \<^verbatim>\<open>ApplyBlock\<close>, \<^verbatim>\<open>GenerateBlock\<close>, \<^verbatim>\<open>savePendingBlock\<close>,
  \<^verbatim>\<open>SignBlock\<close> (by the index of the signer, with the bytes it is asked to sign),
  \<^verbatim>\<open>CommitAppliedBlock\<close>, and the log line for an invalid signature.
\<close>

datatype ('tx, 's) event =
    EvApplyBlock "'tx block"
  | EvGenerateBlock "'tx list"
  | EvSavePendingBlock "'tx block"
  | EvSignBlock nat bytes
  | EvLogInvalidSignature bytes
  | EvCommitAppliedBlock "'tx block" 's

text \<open>
  The collaborators of one cycle. Their code is not part of the file; each is a
  parameter. \<open>signers\<close> is \<^verbatim>\<open>g.signers\<close>: a signer maps the bytes it is asked to sign
  to the signature it returns (\<open>None\<close> for \<^verbatim>\<open>nil\<close>). \<open>doneOrder\<close> is the order in
  which the signers' goroutines send their index on the channel \<^verbatim>\<open>done\<close>; a signer
  that never answers does not occur in it. \<open>queryErr\<close>, \<open>execErr\<close> and
  \<open>rowsAffectedErr\<close> are the failures of the three database calls.
  \<open>encodeBlock\<close> and \<open>hashBlock\<close> are the serialisation and the hash function behind
  \<^verbatim>\<open>MarshalText\<close> and \<^verbatim>\<open>Hash\<close>.
\<close>

record ('tx, 's) env =
  chainState :: "'tx block option \<times> 's"
  GenerateBlock :: "'tx block option \<Rightarrow> 's \<Rightarrow> 64 word \<Rightarrow> 'tx list \<Rightarrow> error + ('tx block \<times> 's)"
  ApplyBlock :: "'s \<Rightarrow> 'tx block \<Rightarrow> error + 's"
  CommitAppliedBlock :: "'tx block \<Rightarrow> 's \<Rightarrow> error option"
  ParseBlockMultiSigProgram :: "bytes \<Rightarrow> error + (bytes list \<times> int)"
  Verify :: "bytes \<Rightarrow> bytes \<Rightarrow> bytes \<Rightarrow> bool"
  encodeBlock :: "'tx block \<Rightarrow> error + bytes"
  hashBlock :: "'tx block \<Rightarrow> bytes"
  signers :: "(bytes \<Rightarrow> bytes option) list"
  doneOrder :: "nat list"
  queryErr :: "error option"
  execErr :: "error option"
  rowsAffectedErr :: "error option"

text \<open>
  The mutable state: the generator's pool and its index, the single row of
  \<^verbatim>\<open>generator_pending_block\<close> (the block and the nullable \<^verbatim>\<open>height\<close> column), and
  the trace.
\<close>

record ('tx, 's) world =
  pool :: "'tx list"
  poolHashes :: "bytes \<rightharpoonup> bool"
  pendingRow :: "('tx block \<times> int option) option"
  trace :: "('tx, 's) event list"

section \<open>Methods of the block that the file calls\<close>

text \<open>
  Modelled from the spec: \<^verbatim>\<open>MarshalText\<close> of \<^verbatim>\<open>legacy.Block\<close>, whose code is not in
  the file. The spec calls it the canonical signable byte representation, "a
  deterministic encoding excluding the witness field": the encoding of the block with
  its witness blanked.
\<close>

definition MarshalText :: "('tx, 's) env \<Rightarrow> 'tx block \<Rightarrow> error + bytes" where
  "MarshalText env b = encodeBlock env (b\<lparr>Witness := []\<rparr>)"

text \<open>
  Modelled from the spec: \<^verbatim>\<open>Hash\<close> of \<^verbatim>\<open>legacy.Block\<close> (followed by \<^verbatim>\<open>Bytes\<close>), whose
  code is not in the file. The spec: "a content hash derived deterministically from all
  fields except the witness".
\<close>

definition Hash :: "('tx, 's) env \<Rightarrow> 'tx block \<Rightarrow> bytes" where
  "Hash env b = hashBlock env (b\<lparr>Witness := []\<rparr>)"

section \<open>Matching signatures to keys\<close>

text \<open>\<^verbatim>\<open>indexKey\<close>: the index of the first key under which the signature verifies, or -1.\<close>

fun indexKeyFrom :: "(bytes \<Rightarrow> bytes \<Rightarrow> bytes \<Rightarrow> bool) \<Rightarrow> int \<Rightarrow> bytes list \<Rightarrow> bytes \<Rightarrow> bytes \<Rightarrow> int" where
  "indexKeyFrom vf i [] msg sg = - 1"
| "indexKeyFrom vf i (key # keys) msg sg =
     (if vf key msg sg then i else indexKeyFrom vf (i + 1) keys msg sg)"

definition indexKey :: "(bytes \<Rightarrow> bytes \<Rightarrow> bytes \<Rightarrow> bool) \<Rightarrow> bytes list \<Rightarrow> bytes \<Rightarrow> bytes \<Rightarrow> int" where
  "indexKey vf keys msg sg = indexKeyFrom vf 0 keys msg sg"

text \<open>\<^verbatim>\<open>nonNilSigs\<close>: the non-nil entries, appended in order to a result that starts empty.\<close>

fun nonNilSigsFrom :: "bytes list \<Rightarrow> bytes option list \<Rightarrow> bytes list" where
  "nonNilSigsFrom b [] = b"
| "nonNilSigsFrom b (p # a) =
     (case p of None \<Rightarrow> nonNilSigsFrom b a | Some s \<Rightarrow> nonNilSigsFrom (b @ [s]) a)"

definition nonNilSigs :: "bytes option list \<Rightarrow> bytes list" where
  "nonNilSigs a = nonNilSigsFrom [] a"

section \<open>Collecting the signatures\<close>

text \<open>
  The collection loop of \<^verbatim>\<open>getAndAddBlockSignatures\<close> (lines 127 to 140): \<open>i\<close> counts
  the receives, \<open>ord\<close> is what the channel still delivers, \<open>good\<close> is \<^verbatim>\<open>goodSigs\<close>.
  It returns \<^verbatim>\<open>goodSigs\<close> and \<^verbatim>\<open>nready\<close>, and the trace. (\<^verbatim>\<open>goodSigs\<close> is made
  with one slot for each key and \<^verbatim>\<open>indexKey\<close> returns a position below the number of
  keys, so \<^verbatim>\<open>goodSigs[k]\<close> is in range.)
\<close>

fun collectLoop ::
  "(bytes \<Rightarrow> bytes \<Rightarrow> bytes \<Rightarrow> bool) \<Rightarrow> bytes list \<Rightarrow> bytes \<Rightarrow> bytes option list \<Rightarrow> int \<Rightarrow> nat \<Rightarrow>
   nat list \<Rightarrow> nat \<Rightarrow> bytes option list \<Rightarrow> int \<Rightarrow> ('tx, 's) event list \<Rightarrow>
   (bytes option list \<times> int) res \<times> ('tx, 's) event list" where
  "collectLoop vf pubkeys h replies quorum n [] i good nready tr =
     (if i < n \<and> nready < quorum then (Abort BlockedOnDone, tr) else (Ok (good, nready), tr))"
| "collectLoop vf pubkeys h replies quorum n (j # ord) i good nready tr =
     (if i < n \<and> nready < quorum then
        (if length replies \<le> j then (Abort IndexOutOfRange, tr)
         else (case replies ! j of
             None \<Rightarrow> collectLoop vf pubkeys h replies quorum n ord (i + 1) good nready tr
           | Some sg \<Rightarrow>
               (let k = indexKey vf pubkeys h sg in
                if 0 \<le> k \<and> good ! nat k = None then
                  collectLoop vf pubkeys h replies quorum n ord (i + 1)
                    (good[nat k := Some sg]) (nready + 1) tr
                else if k < 0 then
                  collectLoop vf pubkeys h replies quorum n ord (i + 1) good nready
                    (tr @ [EvLogInvalidSignature sg])
                else collectLoop vf pubkeys h replies quorum n ord (i + 1) good nready tr)))
      else (Ok (good, nready), tr))"

text \<open>
  \<^verbatim>\<open>getAndAddBlockSignatures\<close>. It returns the block, whose \<^verbatim>\<open>Witness\<close> it may have
  set, and the trace. Every signer's goroutine is started, with the same marshalled
  block, before the first receive; \<open>replies\<close> holds what each signer writes into its
  slot. (The goroutine's own log line for a signer's error depends on the time of the
  cancellation and is not part of the trace.)
\<close>

definition getAndAddBlockSignatures ::
  "('tx, 's) env \<Rightarrow> 'tx block \<Rightarrow> 'tx block option \<Rightarrow> ('tx, 's) event list \<Rightarrow>
   'tx block res \<times> ('tx, 's) event list" where
  "getAndAddBlockSignatures env b prevBlock tr =
     (if prevBlock = None \<and> Height b = 1 then (Ok b, tr)
      else (case prevBlock of
          None \<Rightarrow> (Abort NilDereference, tr)
        | Some pb \<Rightarrow>
            (case ParseBlockMultiSigProgram env (ConsensusProgram pb) of
               Inl err \<Rightarrow> (Err (Wrap err ''parsing prevblock output script''), tr)
             | Inr (pubkeys, quorum) \<Rightarrow>
                 if int (length (signers env)) < quorum then (Err ErrTooFewSigners, tr)
                 else
                   (let hashForSig = Hash env b in
                    case MarshalText env b of
                      Inl err \<Rightarrow> (Err (Wrap err ''marshalling block''), tr)
                    | Inr marshalledBlock \<Rightarrow>
                        (let goodSigs = replicate (length pubkeys) None;
                             replies = map (\<lambda>signer. signer marshalledBlock) (signers env);
                             tr1 = tr @ map (\<lambda>i. EvSignBlock i marshalledBlock)
                                          [0..<length (signers env)]
                         in case collectLoop (Verify env) pubkeys hashForSig replies quorum
                                   (length (signers env)) (doneOrder env) 0 goodSigs 0 tr1 of
                              (Abort a, tr2) \<Rightarrow> (Abort a, tr2)
                            | (Err e, tr2) \<Rightarrow> (Err e, tr2)
                            | (Ok (good, nready), tr2) \<Rightarrow>
                                if nready < quorum then (Err (ErrGotOf nready quorum), tr2)
                                else (Ok (b\<lparr>Witness := nonNilSigs good\<rparr>), tr2))))))"

text \<open>\<^verbatim>\<open>commitBlock\<close>: collect the signatures, then commit.\<close>

definition commitBlock ::
  "('tx, 's) env \<Rightarrow> 'tx block \<Rightarrow> 's \<Rightarrow> 'tx block option \<Rightarrow> ('tx, 's) event list \<Rightarrow>
   bytes res \<times> ('tx, 's) event list" where
  "commitBlock env b s prevBlock tr =
     (case getAndAddBlockSignatures env b prevBlock tr of
        (Err err, tr1) \<Rightarrow> (Err (Wrap err ''sign''), tr1)
      | (Abort a, tr1) \<Rightarrow> (Abort a, tr1)
      | (Ok b', tr1) \<Rightarrow>
          (case CommitAppliedBlock env b' s of
             Some err \<Rightarrow> (Err (Wrap err ''commit''), tr1 @ [EvCommitAppliedBlock b' s])
           | None \<Rightarrow> (Ok (Hash env b'), tr1 @ [EvCommitAppliedBlock b' s])))"

section \<open>The pending block\<close>

text \<open>
  \<^verbatim>\<open>getPendingBlock\<close>: the block of the row; no row (\<^verbatim>\<open>sql.ErrNoRows\<close>) is no block and
  no error.
\<close>

definition getPendingBlock :: "('tx, 's) env \<Rightarrow> ('tx, 's) world \<Rightarrow> error + 'tx block option" where
  "getPendingBlock env w =
     (case queryErr env of
        Some err \<Rightarrow> Inl (Wrap err ''retrieving generated pending block query'')
      | None \<Rightarrow> Inr (map_option fst (pendingRow w)))"

text \<open>
  The statement of \<^verbatim>\<open>savePendingBlock\<close>: an insert that, when the row exists, updates
  it where \<^verbatim>\<open>COALESCE(height, 0) < excluded.height\<close>. It returns the row and the number
  of rows affected.
\<close>

definition upsertPending ::
  "('tx block \<times> int option) option \<Rightarrow> 'tx block \<Rightarrow> ('tx block \<times> int option) option \<times> nat" where
  "upsertPending row b =
     (case row of
        None \<Rightarrow> (Some (b, Some (uint (Height b))), 1)
      | Some (d, h) \<Rightarrow>
          if (case h of None \<Rightarrow> 0 | Some v \<Rightarrow> v) < uint (Height b)
          then (Some (b, Some (uint (Height b))), 1)
          else (Some (d, h), 0))"

definition savePendingBlock ::
  "('tx, 's) env \<Rightarrow> ('tx, 's) world \<Rightarrow> 'tx block \<Rightarrow> error option \<times> ('tx, 's) world" where
  "savePendingBlock env w b =
     (let w0 = w\<lparr>trace := trace w @ [EvSavePendingBlock b]\<rparr> in
      case execErr env of
        Some err \<Rightarrow> (Some (Wrap err ''generator_pending_block insert query''), w0)
      | None \<Rightarrow>
          (let (row, affected) = upsertPending (pendingRow w0) b;
               w1 = w0\<lparr>pendingRow := row\<rparr>
           in case rowsAffectedErr env of
                Some err \<Rightarrow> (Some (Wrap err ''generator_pending_block rows affected''), w1)
              | None \<Rightarrow> if affected = 0 then (Some ErrDuplicateBlock, w1) else (None, w1)))"

section \<open>MakeBlock\<close>

text \<open>
  \<^verbatim>\<open>MakeBlock\<close> returns \<open>Ok\<close> of the hash for \<^verbatim>\<open>(nil, hash)\<close> and \<open>Err e\<close> for
  \<^verbatim>\<open>(e, nil)\<close>. \<^verbatim>\<open>state.Copy\<close> of a snapshot value is the value.
\<close>

definition MakeBlock ::
  "('tx, 's) env \<Rightarrow> ('tx, 's) world \<Rightarrow> 64 word \<Rightarrow> bytes res \<times> ('tx, 's) world" where
  "MakeBlock env w time =
     (let (latestBlock, latestSnapshot) = chainState env in
      case getPendingBlock env w of
        Inl err \<Rightarrow> (Err (Wrap err ''retrieving the pending block''), w)
      | Inr pb \<Rightarrow>
          (let fresh =
             (let txs = pool w;
                  w1 = w\<lparr>pool := [], poolHashes := Map.empty,
                         trace := trace w @ [EvGenerateBlock txs]\<rparr>
              in case GenerateBlock env latestBlock latestSnapshot time txs of
                   Inl err \<Rightarrow> (Err (Wrap err ''generate''), w1)
                 | Inr (b, s) \<Rightarrow>
                     if length (Transactions b) = 0 then (Ok (Hash env b), w1)
                     else (case savePendingBlock env w1 b of
                         (Some err, w2) \<Rightarrow> (Err (Wrap err ''saving pending block''), w2)
                       | (None, w2) \<Rightarrow>
                           (let (r, tr) = commitBlock env b s latestBlock (trace w2)
                            in (r, w2\<lparr>trace := tr\<rparr>))))
           in case pb of
                None \<Rightarrow> fresh
              | Some b \<Rightarrow>
                  if (case latestBlock of None \<Rightarrow> True | Some lb \<Rightarrow> Height b = Height lb + 1)
                  then
                    (let w1 = w\<lparr>trace := trace w @ [EvApplyBlock b]\<rparr>
                     in case ApplyBlock env latestSnapshot b of
                          Inl err \<Rightarrow> (Abort (FatalExit err), w1)
                        | Inr s \<Rightarrow>
                            (let (r, tr) = commitBlock env b s latestBlock (trace w1)
                             in (r, w1\<lparr>trace := tr\<rparr>)))
                  else fresh))"

text \<open>
  The part of \<^verbatim>\<open>MakeBlock\<close> before its last line (lines 46 to 81), on its own:
  \<open>Inl r\<close> when \<^verbatim>\<open>MakeBlock\<close> ends there with \<open>r\<close>, \<open>Inr (b, s)\<close> when line 82
  is reached and calls \<^verbatim>\<open>commitBlock\<close> with the block \<open>b\<close> and the snapshot \<open>s\<close>.
  Lemma \<open>MakeBlock_prepareBlock\<close> shows that \<^verbatim>\<open>MakeBlock\<close> is this part followed by
  \<^verbatim>\<open>commitBlock\<close>.
\<close>

definition prepareBlock ::
  "('tx, 's) env \<Rightarrow> ('tx, 's) world \<Rightarrow> 64 word \<Rightarrow>
   (bytes res + ('tx block \<times> 's)) \<times> ('tx, 's) world" where
  "prepareBlock env w time =
     (let (latestBlock, latestSnapshot) = chainState env in
      case getPendingBlock env w of
        Inl err \<Rightarrow> (Inl (Err (Wrap err ''retrieving the pending block'')), w)
      | Inr pb \<Rightarrow>
          (let fresh =
             (let txs = pool w;
                  w1 = w\<lparr>pool := [], poolHashes := Map.empty,
                         trace := trace w @ [EvGenerateBlock txs]\<rparr>
              in case GenerateBlock env latestBlock latestSnapshot time txs of
                   Inl err \<Rightarrow> (Inl (Err (Wrap err ''generate'')), w1)
                 | Inr (b, s) \<Rightarrow>
                     if length (Transactions b) = 0 then (Inl (Ok (Hash env b)), w1)
                     else (case savePendingBlock env w1 b of
                         (Some err, w2) \<Rightarrow> (Inl (Err (Wrap err ''saving pending block'')), w2)
                       | (None, w2) \<Rightarrow> (Inr (b, s), w2)))
           in case pb of
                None \<Rightarrow> fresh
              | Some b \<Rightarrow>
                  if (case latestBlock of None \<Rightarrow> True | Some lb \<Rightarrow> Height b = Height lb + 1)
                  then
                    (let w1 = w\<lparr>trace := trace w @ [EvApplyBlock b]\<rparr>
                     in case ApplyBlock env latestSnapshot b of
                          Inl err \<Rightarrow> (Inl (Abort (FatalExit err)), w1)
                        | Inr s \<Rightarrow> (Inr (b, s), w1))
                  else fresh))"

section \<open>Notions used in the statements\<close>

text \<open>
  A signature is attributed to the first key, in the order of the key set, under which
  it verifies: \<open>firstVerifying vf keys h sg k\<close> says that \<open>k\<close> is that position.
\<close>

definition firstVerifying ::
  "(bytes \<Rightarrow> bytes \<Rightarrow> bytes \<Rightarrow> bool) \<Rightarrow> bytes list \<Rightarrow> bytes \<Rightarrow> bytes \<Rightarrow> nat \<Rightarrow> bool" where
  "firstVerifying vf keys h sg k \<longleftrightarrow>
     k < length keys \<and> vf (keys ! k) h sg \<and> list_all (\<lambda>key. \<not> vf key h sg) (take k keys)"

text \<open>The filled slots of \<^verbatim>\<open>goodSigs\<close>, as a set and as the increasing list.\<close>

definition filled :: "bytes option list \<Rightarrow> nat set" where
  "filled good = {k. k < length good \<and> good ! k \<noteq> None}"

definition witnessSlots :: "bytes option list \<Rightarrow> nat list" where
  "witnessSlots good = filter (\<lambda>k. good ! k \<noteq> None) [0..<length good]"

text \<open>
  The key positions to which the replies \<open>rs\<close> are attributed, as a set and as the
  increasing list; the length of the list is the number of distinct keys matched.
\<close>

definition matchedBy ::
  "(bytes \<Rightarrow> bytes \<Rightarrow> bytes \<Rightarrow> bool) \<Rightarrow> bytes list \<Rightarrow> bytes \<Rightarrow> bytes option list \<Rightarrow> nat set" where
  "matchedBy vf keys h rs = {k. \<exists>sg. Some sg \<in> set rs \<and> firstVerifying vf keys h sg k}"

definition matchedKeys ::
  "(bytes \<Rightarrow> bytes \<Rightarrow> bytes \<Rightarrow> bool) \<Rightarrow> bytes list \<Rightarrow> bytes \<Rightarrow> bytes option list \<Rightarrow> nat list" where
  "matchedKeys vf keys h rs =
     filter (\<lambda>k. list_ex (\<lambda>r. case r of None \<Rightarrow> False | Some sg \<Rightarrow> firstVerifying vf keys h sg k) rs)
       [0..<length keys]"

text \<open>
  The invariant of the collection loop: \<^verbatim>\<open>goodSigs\<close> has one slot for each key, and a
  filled slot holds a reply that is attributed to the key of that slot.
\<close>

definition slotsOK ::
  "(bytes \<Rightarrow> bytes \<Rightarrow> bytes \<Rightarrow> bool) \<Rightarrow> bytes list \<Rightarrow> bytes \<Rightarrow> bytes option list \<Rightarrow>
   bytes option list \<Rightarrow> bool" where
  "slotsOK vf keys h replies good \<longleftrightarrow>
     length good = length keys \<and>
     (\<forall>k sg. k < length good \<longrightarrow> good ! k = Some sg \<longrightarrow>
        firstVerifying vf keys h sg k \<and> Some sg \<in> set replies)"

text \<open>Kinds of events, and the events that a cycle adds to the trace.\<close>

fun isLog :: "('tx, 's) event \<Rightarrow> bool" where
  "isLog (EvLogInvalidSignature sg) = True"
| "isLog e = False"

fun isSign :: "('tx, 's) event \<Rightarrow> bool" where
  "isSign (EvSignBlock i m) = True"
| "isSign e = False"

fun isCommit :: "('tx, 's) event \<Rightarrow> bool" where
  "isCommit (EvCommitAppliedBlock b s) = True"
| "isCommit e = False"

fun isSave :: "('tx, 's) event \<Rightarrow> bool" where
  "isSave (EvSavePendingBlock b) = True"
| "isSave e = False"

fun isGenerate :: "('tx, 's) event \<Rightarrow> bool" where
  "isGenerate (EvGenerateBlock txs) = True"
| "isGenerate e = False"

definition cycleTrace :: "('tx, 's) world \<Rightarrow> ('tx, 's) world \<Rightarrow> ('tx, 's) event list" where
  "cycleTrace w w' = drop (length (trace w)) (trace w')"

text \<open>
  The test of line 57 of \<^verbatim>\<open>MakeBlock\<close>, on the pending block read from the store and
  the head block: the stored block is used when there is one and either there is no
  head block or its height is the head's plus one (in \<^verbatim>\<open>uint64\<close>).
\<close>

definition pendingUsable :: "'tx block option \<Rightarrow> 'tx block option \<Rightarrow> bool" where
  "pendingUsable pb lb =
     (case pb of
        None \<Rightarrow> False
      | Some b \<Rightarrow> (case lb of None \<Rightarrow> True | Some l \<Rightarrow> Height b = Height l + 1))"

text \<open>
  The condition in the words of the spec: a pending block exists and its height equals
  the height of the head block plus one.
\<close>

definition pendingIsNext :: "'tx block option \<Rightarrow> 'tx block option \<Rightarrow> bool" where
  "pendingIsNext pb lb =
     (case pb of
        None \<Rightarrow> False
      | Some b \<Rightarrow> (case lb of None \<Rightarrow> False | Some l \<Rightarrow> Height b = Height l + 1))"

text \<open>
  What a cycle does first, read off its trace: it reuses the pending block when it
  starts by applying a block to the snapshot, it generates when it starts by calling
  \<^verbatim>\<open>GenerateBlock\<close>.
\<close>

definition reusesPending :: "('tx, 's) env \<Rightarrow> ('tx, 's) world \<Rightarrow> 64 word \<Rightarrow> bool" where
  "reusesPending env w time =
     (case cycleTrace w (snd (MakeBlock env w time)) of
        EvApplyBlock b # l \<Rightarrow> True
      | _ \<Rightarrow> False)"

definition generatesFresh :: "('tx, 's) env \<Rightarrow> ('tx, 's) world \<Rightarrow> 64 word \<Rightarrow> bool" where
  "generatesFresh env w time =
     (case cycleTrace w (snd (MakeBlock env w time)) of
        EvGenerateBlock txs # l \<Rightarrow> True
      | _ \<Rightarrow> False)"

text \<open>
  The condition of the conditional upsert in the words of the spec: no row exists, or
  the recorded height of the row (0 when the column is null) is strictly less than the
  height of the new block.
\<close>

definition supersedes :: "'tx block \<Rightarrow> ('tx block \<times> int option) option \<Rightarrow> bool" where
  "supersedes b row =
     (case row of
        None \<Rightarrow> True
      | Some (d, h) \<Rightarrow> (case h of None \<Rightarrow> 0 | Some v \<Rightarrow> v) < uint (Height b))"

section \<open>A concrete federation, for the examples\<close>

text \<open>
  Three keys, the quorum in the first byte of the consensus program; a signature is
  the key followed by the hash. The head is at height 4, the pool holds two
  transactions, the second signer returns nothing.
\<close>

definition exVerify :: "bytes \<Rightarrow> bytes \<Rightarrow> bytes \<Rightarrow> bool" where
  "exVerify key msg sg \<longleftrightarrow> sg = key @ msg"

definition exSigner :: "bytes \<Rightarrow> bytes \<Rightarrow> bytes option" where
  "exSigner key m = Some (key @ 7 # tl m)"

definition exHead :: "8 word block" where
  "exHead = \<lparr>Height = 4, Transactions = [1], ConsensusProgram = [2, 1, 2, 3], Witness = [[0]]\<rparr>"

definition exEnv :: "(8 word, nat) env" where
  "exEnv = \<lparr>
     chainState = (Some exHead, 10),
     GenerateBlock = (\<lambda>lb ls t txs.
        Inr (\<lparr>Height = (case lb of None \<Rightarrow> 1 | Some l \<Rightarrow> Height l + 1),
              Transactions = txs,
              ConsensusProgram = (case lb of None \<Rightarrow> [] | Some l \<Rightarrow> ConsensusProgram l),
              Witness = []\<rparr>, ls + length txs)),
     ApplyBlock = (\<lambda>s b. Inr (s + length (Transactions b))),
     CommitAppliedBlock = (\<lambda>b s. None),
     ParseBlockMultiSigProgram = (\<lambda>p. case p of
          [] \<Rightarrow> Inl (ErrExternal ''short program'')
        | q # ks \<Rightarrow> Inr (map (\<lambda>x. [x]) ks, uint q)),
     Verify = exVerify,
     encodeBlock = (\<lambda>b. Inr (9 # Transactions b)),
     hashBlock = (\<lambda>b. 7 # Transactions b),
     signers = [exSigner [3], (\<lambda>m. None), exSigner [1]],
     doneOrder = [2, 1, 0],
     queryErr = None, execErr = None, rowsAffectedErr = None\<rparr>"

definition exWorld :: "(8 word, nat) world" where
  "exWorld = \<lparr>pool = [42, 43], poolHashes = Map.empty, pendingRow = None, trace = []\<rparr>"

definition exBlock :: "8 word block" where
  "exBlock = \<lparr>Height = 5, Transactions = [42, 43], ConsensusProgram = [2, 1, 2, 3], Witness = []\<rparr>"

text \<open>The same federation with an encoding of blocks that writes the witness too.\<close>

definition exEnvW :: "(8 word, nat) env" where
  "exEnvW = exEnv\<lparr>encodeBlock := \<lambda>b. Inr (9 # Transactions b @ concat (Witness b))\<rparr>"

section \<open>Facts about \<open>indexKey\<close>\<close>

lemma firstVerifying_iff:
  "firstVerifying vf keys h sg k \<longleftrightarrow>
     k < length keys \<and> vf (keys ! k) h sg \<and> (\<forall>j<k. \<not> vf (keys ! j) h sg)"
proof (cases "k < length keys")
  case True
  then have "list_all (\<lambda>key. \<not> vf key h sg) (take k keys) \<longleftrightarrow> (\<forall>j<k. \<not> vf (keys ! j) h sg)"
    by (simp add: list_all_length)
  then show ?thesis by (simp add: firstVerifying_def)
next
  case False
  then show ?thesis by (simp add: firstVerifying_def)
qed

lemma indexKeyFrom_none:
  "\<forall>k<length keys. \<not> vf (keys ! k) h sg \<Longrightarrow> indexKeyFrom vf i keys h sg = - 1"
proof (induction keys arbitrary: i)
  case Nil
  then show ?case by simp
next
  case (Cons key keys)
  from Cons.prems have "\<not> vf key h sg" by auto
  moreover from Cons.prems have "\<forall>k<length keys. \<not> vf (keys ! k) h sg" by auto
  ultimately show ?case using Cons.IH by simp
qed

lemma indexKeyFrom_first:
  "firstVerifying vf keys h sg k \<Longrightarrow> indexKeyFrom vf i keys h sg = i + int k"
proof (induction keys arbitrary: i k)
  case Nil
  then show ?case by (simp add: firstVerifying_iff)
next
  case (Cons key keys)
  show ?case
  proof (cases k)
    case 0
    with Cons.prems show ?thesis by (simp add: firstVerifying_iff)
  next
    case (Suc k')
    with Cons.prems have nv: "\<not> vf key h sg" by (auto simp: firstVerifying_iff)
    from Suc Cons.prems have "firstVerifying vf keys h sg k'"
      unfolding firstVerifying_iff by (auto simp: less_Suc_eq_0_disj)
    from Cons.IH [OF this, of "i + 1"] nv Suc show ?thesis by simp
  qed
qed

lemma firstVerifying_exists:
  assumes "k < length keys" "vf (keys ! k) h sg"
  shows "\<exists>k'. firstVerifying vf keys h sg k'"
proof -
  let ?P = "\<lambda>k. k < length keys \<and> vf (keys ! k) h sg"
  have "?P (LEAST k. ?P k)" using assms by (intro LeastI [of ?P k]) simp
  moreover have "\<forall>j<(LEAST k. ?P k). \<not> ?P j" using not_less_Least by blast
  ultimately have "firstVerifying vf keys h sg (LEAST k. ?P k)"
    unfolding firstVerifying_iff by (metis (no_types, lifting) less_trans)
  then show ?thesis ..
qed

lemma firstVerifying_unique:
  "firstVerifying vf keys h sg k \<Longrightarrow> firstVerifying vf keys h sg k' \<Longrightarrow> k = k'"
  unfolding firstVerifying_iff by (metis nat_neq_iff)

text \<open>A signature that verifies under one key only is attributed to that key.\<close>

lemma firstVerifying_only_key:
  assumes "k < length keys" "vf (keys ! k) h sg"
    and "\<forall>j<length keys. j \<noteq> k \<longrightarrow> \<not> vf (keys ! j) h sg"
  shows "firstVerifying vf keys h sg k"
  using assms unfolding firstVerifying_iff by auto

lemma indexKey_eq_iff:
  "indexKey vf keys h sg = int k \<longleftrightarrow> firstVerifying vf keys h sg k"
proof
  assume eq: "indexKey vf keys h sg = int k"
  show "firstVerifying vf keys h sg k"
  proof (cases "\<exists>k'<length keys. vf (keys ! k') h sg")
    case True
    then obtain k' where "firstVerifying vf keys h sg k'" using firstVerifying_exists by blast
    moreover from this have "indexKey vf keys h sg = int k'"
      using indexKeyFrom_first [of vf keys h sg k' 0] by (simp add: indexKey_def)
    ultimately show ?thesis using eq by simp
  next
    case False
    then have "indexKey vf keys h sg = - 1"
      using indexKeyFrom_none [of keys vf h sg 0] by (simp add: indexKey_def)
    with eq show ?thesis by simp
  qed
next
  assume "firstVerifying vf keys h sg k"
  then show "indexKey vf keys h sg = int k"
    using indexKeyFrom_first [of vf keys h sg k 0] by (simp add: indexKey_def)
qed

lemma indexKey_neg_iff:
  "indexKey vf keys h sg < 0 \<longleftrightarrow> (\<forall>k<length keys. \<not> vf (keys ! k) h sg)"
proof
  assume neg: "indexKey vf keys h sg < 0"
  show "\<forall>k<length keys. \<not> vf (keys ! k) h sg"
  proof (intro allI impI notI)
    fix k assume "k < length keys" "vf (keys ! k) h sg"
    then obtain k' where "firstVerifying vf keys h sg k'" using firstVerifying_exists by blast
    then have "indexKey vf keys h sg = int k'" by (simp add: indexKey_eq_iff)
    with neg show False by simp
  qed
next
  assume "\<forall>k<length keys. \<not> vf (keys ! k) h sg"
  then show "indexKey vf keys h sg < 0"
    using indexKeyFrom_none [of keys vf h sg 0] by (simp add: indexKey_def)
qed

lemma indexKey_nonneg:
  "0 \<le> indexKey vf keys h sg \<Longrightarrow> firstVerifying vf keys h sg (nat (indexKey vf keys h sg))"
  using indexKey_eq_iff [of vf keys h sg "nat (indexKey vf keys h sg)"] by simp

section \<open>Facts about the slots and the matched keys\<close>

lemma finite_filled: "finite (filled good)"
  by (simp add: filled_def)

lemma filled_update:
  "k < length good \<Longrightarrow> good ! k = None \<Longrightarrow> filled (good[k := Some sg]) = insert k (filled good)"
  by (auto simp: filled_def nth_list_update)

lemma filled_replicate: "filled (replicate m None) = {}"
  by (auto simp: filled_def)

lemma slotsOK_replicate: "slotsOK vf keys h replies (replicate (length keys) None)"
  by (simp add: slotsOK_def)

lemma matchedBy_Nil: "matchedBy vf keys h [] = {}"
  by (simp add: matchedBy_def)

lemma matchedBy_None: "matchedBy vf keys h (None # rs) = matchedBy vf keys h rs"
  by (auto simp: matchedBy_def)

lemma matchedBy_Some_first:
  "firstVerifying vf keys h sg k \<Longrightarrow>
   matchedBy vf keys h (Some sg # rs) = insert k (matchedBy vf keys h rs)"
  by (auto simp: matchedBy_def dest: firstVerifying_unique)

lemma matchedBy_Some_none:
  "indexKey vf keys h sg < 0 \<Longrightarrow> matchedBy vf keys h (Some sg # rs) = matchedBy vf keys h rs"
  by (auto simp: matchedBy_def firstVerifying_iff indexKey_neg_iff)

lemma finite_matchedBy: "finite (matchedBy vf keys h rs)"
proof (rule finite_subset)
  show "matchedBy vf keys h rs \<subseteq> {..<length keys}"
    by (auto simp: matchedBy_def firstVerifying_iff)
qed simp

lemma matchedBy_cong_set: "set rs = set rs' \<Longrightarrow> matchedBy vf keys h rs = matchedBy vf keys h rs'"
  by (simp add: matchedBy_def)

lemma set_matchedKeys: "set (matchedKeys vf keys h rs) = matchedBy vf keys h rs"
proof -
  have "list_ex (\<lambda>r. case r of None \<Rightarrow> False | Some sg \<Rightarrow> firstVerifying vf keys h sg k) rs \<longleftrightarrow>
        (\<exists>sg. Some sg \<in> set rs \<and> firstVerifying vf keys h sg k)" for k
    by (auto simp: list_ex_iff split: option.splits)
  then show ?thesis
    by (auto simp: matchedKeys_def matchedBy_def firstVerifying_iff)
qed

lemma card_matchedBy: "card (matchedBy vf keys h rs) = length (matchedKeys vf keys h rs)"
proof -
  have "distinct (matchedKeys vf keys h rs)" by (simp add: matchedKeys_def)
  then show ?thesis using distinct_card [of "matchedKeys vf keys h rs"] by (simp add: set_matchedKeys)
qed

section \<open>The collection loop\<close>

lemma collectLoop_stop:
  "\<not> (i < n \<and> nready < quorum) \<Longrightarrow>
   collectLoop vf keys h replies quorum n ord i good nready tr = (Ok (good, nready), tr)"
  by (cases ord) auto

lemma collectLoop_step:
  fixes tr :: "('tx, 's) event list"
  assumes run: "i < n" "nready < quorum" and j: "j < length replies"
    and ok: "slotsOK vf keys h replies good" and nr: "nready = int (card (filled good))"
  shows "\<exists>good' nready' l.
     collectLoop vf keys h replies quorum n (j # ord) i good nready tr =
       collectLoop vf keys h replies quorum n ord (i + 1) good' nready' (tr @ l) \<and>
     slotsOK vf keys h replies good' \<and> nready' = int (card (filled good')) \<and>
     nready \<le> nready' \<and> nready' \<le> nready + 1 \<and> list_all isLog l \<and>
     filled good' \<union> matchedBy vf keys h (map ((!) replies) ord) =
       filled good \<union> matchedBy vf keys h (map ((!) replies) (j # ord))"
proof (cases "replies ! j")
  case None
  have "collectLoop vf keys h replies quorum n (j # ord) i good nready tr =
        collectLoop vf keys h replies quorum n ord (i + 1) good nready (tr @ [])"
    using run j None by simp
  moreover have "filled good \<union> matchedBy vf keys h (map ((!) replies) ord) =
       filled good \<union> matchedBy vf keys h (map ((!) replies) (j # ord))"
    using None by (simp add: matchedBy_None)
  ultimately show ?thesis using ok nr
    by (intro exI [of _ good] exI [of _ nready] exI [of _ "[]"]) simp
next
  case (Some sg)
  let ?k = "indexKey vf keys h sg"
  consider (new) "0 \<le> ?k" "good ! nat ?k = None" | (neg) "?k < 0"
    | (dup) "0 \<le> ?k" "good ! nat ?k \<noteq> None" by linarith
  then show ?thesis
  proof cases
    case new
    have fv: "firstVerifying vf keys h sg (nat ?k)" using new(1) by (rule indexKey_nonneg)
    then have klt: "nat ?k < length good" using ok by (simp add: firstVerifying_iff slotsOK_def)
    let ?g = "good[nat ?k := Some sg]"
    have step: "collectLoop vf keys h replies quorum n (j # ord) i good nready tr =
        collectLoop vf keys h replies quorum n ord (i + 1) ?g (nready + 1) (tr @ [])"
      using run j Some new by (simp add: Let_def)
    have fl: "filled ?g = insert (nat ?k) (filled good)"
      using klt new(2) by (rule filled_update)
    have notin: "nat ?k \<notin> filled good" using new(2) by (simp add: filled_def)
    have cd: "nready + 1 = int (card (filled ?g))"
      using fl notin nr finite_filled [of good] by simp
    have mem: "Some sg \<in> set replies" using j Some by (metis nth_mem)
    have ok': "slotsOK vf keys h replies ?g"
      using ok fv mem klt unfolding slotsOK_def by (auto simp: nth_list_update)
    have un: "filled ?g \<union> matchedBy vf keys h (map ((!) replies) ord) =
       filled good \<union> matchedBy vf keys h (map ((!) replies) (j # ord))"
      using fl Some matchedBy_Some_first [OF fv] by simp
    show ?thesis
      using step ok' cd un
      by (intro exI [of _ ?g] exI [of _ "nready + 1"] exI [of _ "[]"]) simp
  next
    case neg
    have step: "collectLoop vf keys h replies quorum n (j # ord) i good nready tr =
        collectLoop vf keys h replies quorum n ord (i + 1) good nready
          (tr @ [EvLogInvalidSignature sg])"
      using run j Some neg by (simp add: Let_def)
    have un: "filled good \<union> matchedBy vf keys h (map ((!) replies) ord) =
       filled good \<union> matchedBy vf keys h (map ((!) replies) (j # ord))"
      using Some matchedBy_Some_none [OF neg] by simp
    show ?thesis
      using step ok nr un
      by (intro exI [of _ good] exI [of _ nready] exI [of _ "[EvLogInvalidSignature sg]"]) simp
  next
    case dup
    have fv: "firstVerifying vf keys h sg (nat ?k)" using dup(1) by (rule indexKey_nonneg)
    then have klt: "nat ?k < length good" using ok by (simp add: firstVerifying_iff slotsOK_def)
    have step: "collectLoop vf keys h replies quorum n (j # ord) i good nready tr =
        collectLoop vf keys h replies quorum n ord (i + 1) good nready (tr @ [])"
      using run j Some dup by (auto simp: Let_def)
    have "nat ?k \<in> filled good" using klt dup(2) by (simp add: filled_def)
    then have un: "filled good \<union> matchedBy vf keys h (map ((!) replies) ord) =
       filled good \<union> matchedBy vf keys h (map ((!) replies) (j # ord))"
      using Some matchedBy_Some_first [OF fv] by auto
    show ?thesis
      using step ok nr un
      by (intro exI [of _ good] exI [of _ nready] exI [of _ "[]"]) simp
  qed
qed

lemma collect_quorum:
  fixes tr :: "('tx, 's) event list"
  assumes "slotsOK vf keys h replies good" "nready = int (card (filled good))"
    "nready \<le> quorum"
    "quorum \<le> int (card (filled good \<union> matchedBy vf keys h (map ((!) replies) ord)))"
    "i + length ord \<le> n" "\<forall>j\<in>set ord. j < length replies"
  shows "\<exists>good' l. collectLoop vf keys h replies quorum n ord i good nready tr =
            (Ok (good', quorum), tr @ l) \<and>
          slotsOK vf keys h replies good' \<and> int (card (filled good')) = quorum \<and> list_all isLog l"
  using assms
proof (induction ord arbitrary: i good nready tr)
  case Nil
  then have "nready = quorum" by (simp add: matchedBy_Nil)
  with Nil show ?case
    by (intro exI [of _ good] exI [of _ "[]"]) simp
next
  case (Cons j ord)
  show ?case
  proof (cases "nready < quorum")
    case False
    with Cons.prems have "nready = quorum" by simp
    with Cons.prems show ?thesis
      by (intro exI [of _ good] exI [of _ "[]"]) simp
  next
    case True
    have i: "i < n" using Cons.prems(5) by simp
    have j: "j < length replies" using Cons.prems(6) by simp
    from collectLoop_step [OF i True j Cons.prems(1,2), of ord tr]
    obtain good' nready' l where
      st: "collectLoop vf keys h replies quorum n (j # ord) i good nready tr =
           collectLoop vf keys h replies quorum n ord (i + 1) good' nready' (tr @ l)"
      and ok': "slotsOK vf keys h replies good'" and nr': "nready' = int (card (filled good'))"
      and up: "nready' \<le> nready + 1" and lg: "list_all isLog l"
      and un: "filled good' \<union> matchedBy vf keys h (map ((!) replies) ord) =
               filled good \<union> matchedBy vf keys h (map ((!) replies) (j # ord))"
      by blast
    have le': "nready' \<le> quorum" using up True by simp
    have en': "quorum \<le> int (card (filled good' \<union> matchedBy vf keys h (map ((!) replies) ord)))"
      using Cons.prems(4) un by simp
    have len': "i + 1 + length ord \<le> n" using Cons.prems(5) by simp
    have rng': "\<forall>j\<in>set ord. j < length replies" using Cons.prems(6) by simp
    from Cons.IH [OF ok' nr' le' en' len' rng', of "tr @ l"]
    obtain good'' l' where
      "collectLoop vf keys h replies quorum n ord (i + 1) good' nready' (tr @ l) =
         (Ok (good'', quorum), (tr @ l) @ l')"
      "slotsOK vf keys h replies good''" "int (card (filled good'')) = quorum" "list_all isLog l'"
      by blast
    with st lg show ?thesis
      by (intro exI [of _ good''] exI [of _ "l @ l'"]) simp
  qed
qed

lemma collect_short:
  fixes tr :: "('tx, 's) event list"
  assumes "slotsOK vf keys h replies good" "nready = int (card (filled good))"
    "int (card (filled good \<union> matchedBy vf keys h (map ((!) replies) ord))) < quorum"
    "i + length ord = n" "\<forall>j\<in>set ord. j < length replies"
  shows "\<exists>good' l. collectLoop vf keys h replies quorum n ord i good nready tr =
            (Ok (good', int (card (filled good \<union> matchedBy vf keys h (map ((!) replies) ord)))),
                tr @ l) \<and> list_all isLog l"
  using assms
proof (induction ord arbitrary: i good nready tr)
  case Nil
  then show ?case
    by (intro exI [of _ good] exI [of _ "[]"]) (simp add: matchedBy_Nil)
next
  case (Cons j ord)
  have "card (filled good) \<le> card (filled good \<union> matchedBy vf keys h (map ((!) replies) (j # ord)))"
    by (rule card_mono) (simp_all add: finite_filled finite_matchedBy)
  then have lt: "nready < quorum" using Cons.prems(2,3) by linarith
  have i: "i < n" using Cons.prems(4) by auto
  have j: "j < length replies" using Cons.prems(5) by simp
  from collectLoop_step [OF i lt j Cons.prems(1,2), of ord tr]
  obtain good' nready' l where
    st: "collectLoop vf keys h replies quorum n (j # ord) i good nready tr =
         collectLoop vf keys h replies quorum n ord (i + 1) good' nready' (tr @ l)"
    and ok': "slotsOK vf keys h replies good'" and nr': "nready' = int (card (filled good'))"
    and lg: "list_all isLog l"
    and un: "filled good' \<union> matchedBy vf keys h (map ((!) replies) ord) =
             filled good \<union> matchedBy vf keys h (map ((!) replies) (j # ord))"
    by blast
  have sh': "int (card (filled good' \<union> matchedBy vf keys h (map ((!) replies) ord))) < quorum"
    using Cons.prems(3) un by simp
  have len': "i + 1 + length ord = n" using Cons.prems(4) by simp
  have rng': "\<forall>j\<in>set ord. j < length replies" using Cons.prems(5) by simp
  from Cons.IH [OF ok' nr' sh' len' rng', of "tr @ l"]
  obtain good'' l' where
    "collectLoop vf keys h replies quorum n ord (i + 1) good' nready' (tr @ l) =
       (Ok (good'', int (card (filled good' \<union> matchedBy vf keys h (map ((!) replies) ord)))),
           (tr @ l) @ l')" "list_all isLog l'"
    by blast
  with st lg un show ?case
    by (intro exI [of _ good''] exI [of _ "l @ l'"]) simp
qed

text \<open>Whatever the replies, the loop only adds log lines to the trace.\<close>

lemma collectLoop_trace:
  fixes tr :: "('tx, 's) event list"
  shows "\<exists>l. snd (collectLoop vf keys h replies quorum n ord i good nready tr) = tr @ l \<and>
           list_all isLog l"
proof (induction ord arbitrary: i good nready tr)
  case Nil
  then show ?case by simp
next
  case (Cons j ord)
  show ?case
  proof (cases "i < n \<and> nready < quorum \<and> j < length replies")
    case False
    then show ?thesis by auto
  next
    case True
    show ?thesis
    proof (cases "replies ! j")
      case None
      with True Cons.IH [of "i + 1" good nready tr] show ?thesis by simp
    next
      case (Some sg)
      let ?k = "indexKey vf keys h sg"
      consider (new) "0 \<le> ?k" "good ! nat ?k = None" | (neg) "?k < 0"
        | (dup) "0 \<le> ?k" "good ! nat ?k \<noteq> None" by linarith
      then show ?thesis
      proof cases
        case new
        with True Some Cons.IH [of "i + 1" "good[nat ?k := Some sg]" "nready + 1" tr]
        show ?thesis by (simp add: Let_def)
      next
        case neg
        from Cons.IH [of "i + 1" good nready "tr @ [EvLogInvalidSignature sg]"] obtain l where
          "snd (collectLoop vf keys h replies quorum n ord (i + 1) good nready
                 (tr @ [EvLogInvalidSignature sg])) = (tr @ [EvLogInvalidSignature sg]) @ l"
          "list_all isLog l" by blast
        with True Some neg show ?thesis
          by (intro exI [of _ "EvLogInvalidSignature sg # l"]) (simp add: Let_def)
      next
        case dup
        with True Some Cons.IH [of "i + 1" good nready tr]
        show ?thesis by (auto simp: Let_def)
      qed
    qed
  qed
qed

lemma collectLoop_no_Err:
  "fst (collectLoop vf keys h replies quorum n ord i good nready tr) \<noteq> Err e"
  by (induction ord arbitrary: i good nready tr) (auto simp: Let_def split: option.splits)

section \<open>Facts about \<open>nonNilSigs\<close>\<close>

lemma nonNilSigsFrom_eq:
  "nonNilSigsFrom b a = b @ map the (filter (\<lambda>p. p \<noteq> None) a)"
  by (induction a arbitrary: b) (auto split: option.splits)

lemma nonNilSigs_witnessSlots:
  "nonNilSigs good = map (\<lambda>k. the (good ! k)) (witnessSlots good)"
proof -
  have "filter (\<lambda>p. p \<noteq> None) (map ((!) good) [0..<length good]) =
        map ((!) good) (filter (\<lambda>k. good ! k \<noteq> None) [0..<length good])"
    by (simp add: filter_map comp_def)
  then have "filter (\<lambda>p. p \<noteq> None) good = map ((!) good) (witnessSlots good)"
    by (simp add: map_nth witnessSlots_def)
  then show ?thesis by (simp add: nonNilSigs_def nonNilSigsFrom_eq comp_def)
qed

lemma set_witnessSlots: "set (witnessSlots good) = filled good"
  by (auto simp: witnessSlots_def filled_def)

lemma distinct_witnessSlots: "distinct (witnessSlots good)"
  by (simp add: witnessSlots_def)

lemma sorted_witnessSlots: "sorted_wrt (<) (witnessSlots good)"
  by (simp add: witnessSlots_def sorted_wrt_filter)

lemma length_witnessSlots: "length (witnessSlots good) = card (filled good)"
  using distinct_card [OF distinct_witnessSlots, of good] by (simp add: set_witnessSlots)

section \<open>The structure of a cycle\<close>

lemma Hash_Witness: "Hash env (b\<lparr>Witness := wit\<rparr>) = Hash env b"
  by (simp add: Hash_def)

lemma MarshalText_Witness: "MarshalText env (b\<lparr>Witness := wit\<rparr>) = MarshalText env b"
  by (simp add: MarshalText_def)

lemma MakeBlock_prepareBlock:
  "MakeBlock env w time =
     (case prepareBlock env w time of
        (Inl r, w') \<Rightarrow> (r, w')
      | (Inr (b, s), w') \<Rightarrow>
          (let (r, tr) = commitBlock env b s (fst (chainState env)) (trace w')
           in (r, w'\<lparr>trace := tr\<rparr>)))"
proof -
  obtain lb ls where cs: "chainState env = (lb, ls)" by (cases "chainState env")
  let ?w1 = "w\<lparr>pool := [], poolHashes := Map.empty, trace := trace w @ [EvGenerateBlock (pool w)]\<rparr>"
  define K where "K = (\<lambda>p :: (bytes res + ('a block \<times> 'b)) \<times> ('a, 'b) world. case p of
        (Inl r, w') \<Rightarrow> (r, w')
      | (Inr (b, s), w') \<Rightarrow>
          (let (r, tr) = commitBlock env b s lb (trace w') in (r, w'\<lparr>trace := tr\<rparr>)))"
  define F where "F = (case GenerateBlock env lb ls time (pool w) of
                   Inl err \<Rightarrow> (Err (Wrap err ''generate''), ?w1)
                 | Inr (b, s) \<Rightarrow>
                     if length (Transactions b) = 0 then (Ok (Hash env b), ?w1)
                     else (case savePendingBlock env ?w1 b of
                         (Some err, w2) \<Rightarrow> (Err (Wrap err ''saving pending block''), w2)
                       | (None, w2) \<Rightarrow>
                           (let (r, tr) = commitBlock env b s lb (trace w2)
                            in (r, w2\<lparr>trace := tr\<rparr>))))"
  define G where "G = (case GenerateBlock env lb ls time (pool w) of
                   Inl err \<Rightarrow> (Inl (Err (Wrap err ''generate'')), ?w1)
                 | Inr (b, s) \<Rightarrow>
                     if length (Transactions b) = 0 then (Inl (Ok (Hash env b)), ?w1)
                     else (case savePendingBlock env ?w1 b of
                         (Some err, w2) \<Rightarrow> (Inl (Err (Wrap err ''saving pending block'')), w2)
                       | (None, w2) \<Rightarrow> (Inr (b, s), w2)))"
  have fresh: "F = K G"
  proof (cases "GenerateBlock env lb ls time (pool w)")
    case (Inl err)
    then show ?thesis by (simp add: F_def G_def K_def)
  next
    case (Inr bs)
    obtain b s where bs: "bs = (b, s)" by (cases bs)
    obtain e w2 where sv: "savePendingBlock env ?w1 b = (e, w2)"
      by (cases "savePendingBlock env ?w1 b")
    show ?thesis using Inr bs sv by (cases e) (simp_all add: F_def G_def K_def)
  qed
  have M: "MakeBlock env w time =
     (case getPendingBlock env w of
        Inl err \<Rightarrow> (Err (Wrap err ''retrieving the pending block''), w)
      | Inr pb \<Rightarrow>
          (case pb of
             None \<Rightarrow> F
           | Some b \<Rightarrow>
               if (case lb of None \<Rightarrow> True | Some l \<Rightarrow> Height b = Height l + 1)
               then (case ApplyBlock env ls b of
                       Inl err \<Rightarrow> (Abort (FatalExit err), w\<lparr>trace := trace w @ [EvApplyBlock b]\<rparr>)
                     | Inr s \<Rightarrow> K (Inr (b, s), w\<lparr>trace := trace w @ [EvApplyBlock b]\<rparr>))
               else F))"
    unfolding F_def K_def MakeBlock_def cs Let_def
    by (cases "getPendingBlock env w") (simp_all split: option.split sum.split)
  have P: "prepareBlock env w time =
     (case getPendingBlock env w of
        Inl err \<Rightarrow> (Inl (Err (Wrap err ''retrieving the pending block'')), w)
      | Inr pb \<Rightarrow>
          (case pb of
             None \<Rightarrow> G
           | Some b \<Rightarrow>
               if (case lb of None \<Rightarrow> True | Some l \<Rightarrow> Height b = Height l + 1)
               then (case ApplyBlock env ls b of
                       Inl err \<Rightarrow> (Inl (Abort (FatalExit err)), w\<lparr>trace := trace w @ [EvApplyBlock b]\<rparr>)
                     | Inr s \<Rightarrow> (Inr (b, s), w\<lparr>trace := trace w @ [EvApplyBlock b]\<rparr>))
               else G))"
    unfolding G_def prepareBlock_def cs Let_def
    by (cases "getPendingBlock env w") (simp_all split: option.split sum.split)
  have lb: "fst (chainState env) = lb" by (simp add: cs)
  have "MakeBlock env w time = K (prepareBlock env w time)"
    unfolding M P fresh
    by (simp add: K_def split: sum.splits option.splits)
  then show ?thesis unfolding lb by (simp add: K_def)
qed

lemma savePendingBlock_trace:
  "trace (snd (savePendingBlock env w b)) = trace w @ [EvSavePendingBlock b]"
  by (simp add: savePendingBlock_def Let_def split: option.splits prod.splits)

lemma savePendingBlock_pool:
  "pool (snd (savePendingBlock env w b)) = pool w"
  by (simp add: savePendingBlock_def Let_def split: option.splits prod.splits)

lemma prepareBlock_trace:
  assumes "prepareBlock env w time = (r, w')"
  shows "\<exists>l. trace w' = trace w @ l \<and> list_all (\<lambda>e. \<not> isSign e \<and> \<not> isCommit e) l"
proof -
  have sv: "trace w2 = trace w1 @ [EvSavePendingBlock b]"
    if "savePendingBlock env w1 b = (e, w2)" for w1 w2 :: "('a, 'b) world" and b e
    using savePendingBlock_trace [of env w1 b] that by simp
  show ?thesis
    using assms unfolding prepareBlock_def Let_def
    by (auto split: prod.splits sum.splits option.splits if_splits dest!: sv)
qed

lemma getAndAdd_collect:
  assumes "prev = Some pb"
    and "ParseBlockMultiSigProgram env (ConsensusProgram pb) = Inr (keys, M)"
    and "\<not> int (length (signers env)) < M"
    and "MarshalText env b = Inr mb"
  shows "getAndAddBlockSignatures env b prev tr =
     (case collectLoop (Verify env) keys (Hash env b) (map (\<lambda>signer. signer mb) (signers env)) M
             (length (signers env)) (doneOrder env) 0 (replicate (length keys) None) 0
             (tr @ map (\<lambda>i. EvSignBlock i mb) [0..<length (signers env)]) of
        (Abort a, tr2) \<Rightarrow> (Abort a, tr2)
      | (Err e, tr2) \<Rightarrow> (Err e, tr2)
      | (Ok (good, nready), tr2) \<Rightarrow>
          if nready < M then (Err (ErrGotOf nready M), tr2)
          else (Ok (b\<lparr>Witness := nonNilSigs good\<rparr>), tr2))"
  using assms by (simp add: getAndAddBlockSignatures_def Let_def)

lemma getAndAdd_trace:
  assumes "getAndAddBlockSignatures env b prev tr = (r, tr')"
  shows "\<exists>l. tr' = tr @ l \<and> list_all (\<lambda>e. \<not> isCommit e \<and> \<not> isSave e \<and> \<not> isGenerate e) l \<and>
           (\<forall>i m. EvSignBlock i m \<in> set l \<longrightarrow> MarshalText env b = Inr m \<and> i < length (signers env))"
proof -
  let ?n = "length (signers env)"
  let ?P = "\<lambda>e::('a, 'b) event. \<not> isCommit e \<and> \<not> isSave e \<and> \<not> isGenerate e"
  consider (run) pb keys M mb where "prev = Some pb"
      "ParseBlockMultiSigProgram env (ConsensusProgram pb) = Inr (keys, M)"
      "\<not> int ?n < M" "MarshalText env b = Inr mb"
    | (stop) "tr' = tr"
    using assms unfolding getAndAddBlockSignatures_def Let_def
    by (auto split: option.splits sum.splits prod.splits if_splits)
  then show ?thesis
  proof cases
    case stop
    then show ?thesis by simp
  next
    case run
    let ?sg = "map (\<lambda>i. EvSignBlock i mb) [0..<?n] :: ('a, 'b) event list"
    have logs: "list_all ?P l \<and> (\<forall>i m. EvSignBlock i m \<notin> set l)" if "list_all isLog l"
      for l :: "('a, 'b) event list"
    proof -
      have "isLog e \<Longrightarrow> ?P e \<and> (\<forall>i m. e \<noteq> EvSignBlock i m)" for e :: "('a, 'b) event"
        by (cases e) simp_all
      with that show ?thesis unfolding list_all_iff by blast
    qed
    have signs: "list_all ?P ?sg" by (simp add: list_all_iff)
    from assms getAndAdd_collect [OF run, of tr]
    have "tr' = snd (collectLoop (Verify env) keys (Hash env b)
              (map (\<lambda>signer. signer mb) (signers env)) M
              ?n (doneOrder env) 0 (replicate (length keys) None) 0 (tr @ ?sg))"
      by (auto split: res.splits prod.splits if_splits)
    with collectLoop_trace [of "Verify env" keys "Hash env b"
        "map (\<lambda>signer. signer mb) (signers env)" M ?n "doneOrder env" 0
        "replicate (length keys) None" 0 "tr @ ?sg"]
    obtain l where l: "tr' = (tr @ ?sg) @ l" "list_all isLog l" by auto
    with signs logs [OF l(2)] run(4) show ?thesis by (intro exI [of _ "?sg @ l"]) auto
  qed
qed

lemma ps_matched:
  assumes d: "distinct (map snd ps)"
    and m: "\<forall>(j, k)\<in>set ps. j \<in> set ord \<and>
              (\<exists>sg. replies ! j = Some sg \<and> firstVerifying vf keys h sg k)"
  shows "length ps \<le> card (matchedBy vf keys h (map ((!) replies) ord))"
proof -
  have "set (map snd ps) \<subseteq> matchedBy vf keys h (map ((!) replies) ord)"
  proof
    fix k assume "k \<in> set (map snd ps)"
    then obtain j where "(j, k) \<in> set ps" by auto
    with m obtain sg where "j \<in> set ord" "replies ! j = Some sg" "firstVerifying vf keys h sg k"
      by blast
    then show "k \<in> matchedBy vf keys h (map ((!) replies) ord)"
      unfolding matchedBy_def by (auto simp: image_iff intro!: exI [of _ sg] bexI [of _ j])
  qed
  then have "card (set (map snd ps)) \<le> card (matchedBy vf keys h (map ((!) replies) ord))"
    by (rule card_mono [OF finite_matchedBy])
  with d show ?thesis using distinct_card [of "map snd ps"] by simp
qed

lemma distinct_bounded_length:
  assumes "distinct ord" "\<forall>j\<in>set ord. j < n"
  shows "length ord \<le> n"
proof -
  have "card (set ord) \<le> card {..<n}" using assms(2) by (intro card_mono) auto
  with assms(1) show ?thesis by (simp add: distinct_card)
qed

section \<open>Paths of a cycle\<close>

lemma commitBlock_trace:
  assumes "commitBlock env b s lb tr = (r, tr')"
  shows "\<exists>l. tr' = tr @ l \<and> list_all (\<lambda>e. \<not> isSave e \<and> \<not> isGenerate e) l"
proof -
  obtain r1 tr1 where g: "getAndAddBlockSignatures env b lb tr = (r1, tr1)"
    by (cases "getAndAddBlockSignatures env b lb tr")
  from getAndAdd_trace [OF g] obtain l where
    l: "tr1 = tr @ l" "list_all (\<lambda>e. \<not> isCommit e \<and> \<not> isSave e \<and> \<not> isGenerate e) l" by blast
  then have l': "list_all (\<lambda>e. \<not> isSave e \<and> \<not> isGenerate e) l" by (simp add: list_all_iff)
  from assms g have "tr' = tr1 \<or> (\<exists>b'. tr' = tr1 @ [EvCommitAppliedBlock b' s])"
    by (auto simp: commitBlock_def split: res.splits option.splits)
  then show ?thesis
  proof
    assume "tr' = tr1"
    with l l' show ?thesis by blast
  next
    assume "\<exists>b'. tr' = tr1 @ [EvCommitAppliedBlock b' s]"
    then obtain b' where "tr' = tr @ (l @ [EvCommitAppliedBlock b' s])" using l by auto
    moreover have "list_all (\<lambda>e. \<not> isSave e \<and> \<not> isGenerate e) (l @ [EvCommitAppliedBlock b' s])"
      using l' by simp
    ultimately show ?thesis by blast
  qed
qed

lemma commitBlock_Ok_hash:
  assumes "commitBlock env b s lb tr = (Ok h, tr')"
  shows "h = Hash env b"
proof -
  obtain r1 tr1 where g: "getAndAddBlockSignatures env b lb tr = (r1, tr1)"
    by (cases "getAndAddBlockSignatures env b lb tr")
  have "r1 = Ok b' \<Longrightarrow> Hash env b' = Hash env b" for b'
    using g
    by (auto simp: getAndAddBlockSignatures_def Let_def Hash_Witness
        split: if_splits option.splits sum.splits prod.splits res.splits)
  with assms g show ?thesis
    by (auto simp: commitBlock_def split: res.splits option.splits)
qed

lemma nth_image_all: "(!) xs ` {..<length xs} = set xs"
  by (simp add: lessThan_atLeast0 nth_image)

lemma cycleTrace_append: "trace w' = trace w @ l \<Longrightarrow> cycleTrace w w' = l"
  by (simp add: cycleTrace_def)

lemma MakeBlock_fresh:
  assumes "getPendingBlock env w = Inr pb" "\<not> pendingUsable pb (fst (chainState env))"
  shows "MakeBlock env w time =
     (case GenerateBlock env (fst (chainState env)) (snd (chainState env)) time (pool w) of
        Inl err \<Rightarrow> (Err (Wrap err ''generate''),
           w\<lparr>pool := [], poolHashes := Map.empty, trace := trace w @ [EvGenerateBlock (pool w)]\<rparr>)
      | Inr (b, s) \<Rightarrow>
          if length (Transactions b) = 0
          then (Ok (Hash env b),
            w\<lparr>pool := [], poolHashes := Map.empty, trace := trace w @ [EvGenerateBlock (pool w)]\<rparr>)
          else (case savePendingBlock env
                  (w\<lparr>pool := [], poolHashes := Map.empty,
                     trace := trace w @ [EvGenerateBlock (pool w)]\<rparr>) b of
              (Some err, w2) \<Rightarrow> (Err (Wrap err ''saving pending block''), w2)
            | (None, w2) \<Rightarrow>
                (let (r, tr) = commitBlock env b s (fst (chainState env)) (trace w2)
                 in (r, w2\<lparr>trace := tr\<rparr>))))"
proof -
  obtain lb ls where cs: "chainState env = (lb, ls)" by (cases "chainState env")
  have lbs: "fst (chainState env) = lb" "snd (chainState env) = ls" by (simp_all add: cs)
  show ?thesis
  proof (cases pb)
    case None
    with assms(1) show ?thesis unfolding lbs by (simp add: MakeBlock_def cs Let_def)
  next
    case (Some b)
    with assms(2) have "\<not> (case lb of None \<Rightarrow> True | Some l \<Rightarrow> Height b = Height l + 1)"
      by (simp add: pendingUsable_def cs)
    with assms(1) Some show ?thesis unfolding lbs by (simp add: MakeBlock_def cs Let_def)
  qed
qed

lemma MakeBlock_reuse:
  assumes "getPendingBlock env w = Inr (Some b)" "pendingUsable (Some b) (fst (chainState env))"
  shows "MakeBlock env w time =
     (case ApplyBlock env (snd (chainState env)) b of
        Inl err \<Rightarrow> (Abort (FatalExit err), w\<lparr>trace := trace w @ [EvApplyBlock b]\<rparr>)
      | Inr s \<Rightarrow>
          (let (r, tr) = commitBlock env b s (fst (chainState env)) (trace w @ [EvApplyBlock b])
           in (r, w\<lparr>trace := trace w @ [EvApplyBlock b], trace := tr\<rparr>)))"
proof -
  obtain lb ls where cs: "chainState env = (lb, ls)" by (cases "chainState env")
  have lbs: "fst (chainState env) = lb" "snd (chainState env) = ls" by (simp_all add: cs)
  from assms(2) have "case lb of None \<Rightarrow> True | Some l \<Rightarrow> Height b = Height l + 1"
    by (simp add: pendingUsable_def cs)
  with assms(1) show ?thesis unfolding lbs
    by (cases "ApplyBlock env ls b") (simp_all add: MakeBlock_def cs Let_def)
qed

lemma reuse_shape:
  assumes pend: "getPendingBlock env w = Inr (Some b)"
    and use: "pendingUsable (Some b) (fst (chainState env))"
  shows "\<exists>r l. MakeBlock env w time = (r, w\<lparr>trace := trace w @ EvApplyBlock b # l\<rparr>) \<and>
           \<not> list_ex isGenerate l \<and> (\<forall>h. r = Ok h \<longrightarrow> h = Hash env b)"
proof (cases "ApplyBlock env (snd (chainState env)) b")
  case (Inl err)
  then have "MakeBlock env w time = (Abort (FatalExit err), w\<lparr>trace := trace w @ EvApplyBlock b # []\<rparr>)"
    unfolding MakeBlock_reuse [OF pend use] by simp
  then show ?thesis by (intro exI [of _ "Abort (FatalExit err)"] exI [of _ "[]"]) simp
next
  case (Inr s)
  obtain r tr where cb: "commitBlock env b s (fst (chainState env)) (trace w @ [EvApplyBlock b]) = (r, tr)"
    by (cases "commitBlock env b s (fst (chainState env)) (trace w @ [EvApplyBlock b])")
  from commitBlock_trace [OF cb] obtain l where
    l: "tr = (trace w @ [EvApplyBlock b]) @ l" "list_all (\<lambda>e. \<not> isSave e \<and> \<not> isGenerate e) l"
    by blast
  have "MakeBlock env w time = (r, w\<lparr>trace := trace w @ EvApplyBlock b # l\<rparr>)"
    unfolding MakeBlock_reuse [OF pend use] using Inr cb l(1) by simp
  moreover have "\<not> list_ex isGenerate l" using l(2) by (auto simp: list_all_iff list_ex_iff)
  moreover have "\<forall>h. r = Ok h \<longrightarrow> h = Hash env b"
  proof (intro allI impI)
    fix h assume "r = Ok h"
    with cb show "h = Hash env b" by (auto dest: commitBlock_Ok_hash)
  qed
  ultimately show ?thesis by blast
qed

lemma fresh_shape:
  assumes pend: "getPendingBlock env w = Inr pb"
    and fresh: "\<not> pendingUsable pb (fst (chainState env))"
  shows "\<exists>r w' l. MakeBlock env w time = (r, w') \<and>
           trace w' = trace w @ EvGenerateBlock (pool w) # l \<and> pool w' = []"
proof -
  let ?w1 = "w\<lparr>pool := [], poolHashes := Map.empty, trace := trace w @ [EvGenerateBlock (pool w)]\<rparr>"
  have stop: "\<exists>r w' l. (x, ?w1) = (r, w') \<and>
           trace w' = trace w @ EvGenerateBlock (pool w) # l \<and> pool w' = []" for x :: "bytes res"
    by (intro exI [of _ x] exI [of _ ?w1] exI [of _ "[]"]) simp
  show ?thesis
  proof (cases "GenerateBlock env (fst (chainState env)) (snd (chainState env)) time (pool w)")
    case (Inl err)
    then show ?thesis unfolding MakeBlock_fresh [OF pend fresh] using stop by simp
  next
    case (Inr bs)
    obtain b s where bs: "bs = (b, s)" by (cases bs)
    show ?thesis
    proof (cases "Transactions b = []")
      case True
      with Inr bs show ?thesis unfolding MakeBlock_fresh [OF pend fresh] using stop by simp
    next
      case False
      obtain e w2 where sv: "savePendingBlock env ?w1 b = (e, w2)"
        by (cases "savePendingBlock env ?w1 b")
      have tr2: "trace w2 = trace w @ EvGenerateBlock (pool w) # [EvSavePendingBlock b]"
        using savePendingBlock_trace [of env ?w1 b] sv by simp
      have p2: "pool w2 = []" using savePendingBlock_pool [of env ?w1 b] sv by simp
      show ?thesis
      proof (cases e)
        case (Some err)
        have "MakeBlock env w time = (Err (Wrap err ''saving pending block''), w2)"
          unfolding MakeBlock_fresh [OF pend fresh] using Inr bs False sv Some by simp
        with tr2 p2 show ?thesis by blast
      next
        case None
        obtain r tr where cb: "commitBlock env b s (fst (chainState env)) (trace w2) = (r, tr)"
          by (cases "commitBlock env b s (fst (chainState env)) (trace w2)")
        from commitBlock_trace [OF cb] obtain l where l: "tr = trace w2 @ l" by blast
        have "MakeBlock env w time = (r, w2\<lparr>trace := tr\<rparr>)"
          unfolding MakeBlock_fresh [OF pend fresh] using Inr bs False sv None cb by simp
        moreover have "trace (w2\<lparr>trace := tr\<rparr>) =
            trace w @ EvGenerateBlock (pool w) # (EvSavePendingBlock b # l)"
          using l tr2 by simp
        moreover have "pool (w2\<lparr>trace := tr\<rparr>) = []" using p2 by simp
        ultimately show ?thesis by blast
      qed
    qed
  qed
qed

lemma savePendingBlock_saved_row:
  assumes "savePendingBlock env w b = (None, w2)"
  shows "pendingRow w2 = Some (b, Some (uint (Height b)))"
proof -
  obtain row n where up: "upsertPending (pendingRow w) b = (row, n)"
    by (cases "upsertPending (pendingRow w) b")
  have "n \<noteq> 0 \<Longrightarrow> row = Some (b, Some (uint (Height b)))"
    using up by (auto simp: upsertPending_def split: option.splits prod.splits if_splits)
  with assms up show ?thesis
    by (auto simp: savePendingBlock_def Let_def split: option.splits if_splits)
qed
text \<open>
  On every path: a block reaches the signing stage only when the pending row holds it,
  and a signer is only ever asked to sign the block that the pending row holds.
\<close>

lemma prepareBlock_row:
  assumes "prepareBlock env w time = (Inr (b, s), w1)"
  shows "\<exists>h. pendingRow w1 = Some (b, h)"
proof -
  obtain lb ls where cs: "chainState env = (lb, ls)" by (cases "chainState env")
  let ?w1 = "w\<lparr>pool := [], poolHashes := Map.empty, trace := trace w @ [EvGenerateBlock (pool w)]\<rparr>"
  have sv: "pendingRow w2 = Some (b', Some (uint (Height b')))"
    if "savePendingBlock env ?w1 b' = (None, w2)" for b' w2
    using that by (rule savePendingBlock_saved_row)
  have rd: "\<exists>h. pendingRow w = Some (b', h)" if "getPendingBlock env w = Inr (Some b')" for b'
    using that by (auto simp: getPendingBlock_def split: option.splits)
  show ?thesis
    using assms unfolding prepareBlock_def cs Let_def
    by (auto split: sum.splits option.splits prod.splits if_splits dest!: sv rd)
qed

lemma sign_request_only_for_saved_block:
  assumes "EvSignBlock i m \<in> set (cycleTrace w (snd (MakeBlock env w time)))"
  shows "\<exists>b h. pendingRow (snd (MakeBlock env w time)) = Some (b, h) \<and> MarshalText env b = Inr m"
proof -
  obtain p w1 where prep: "prepareBlock env w time = (p, w1)"
    by (cases "prepareBlock env w time")
  from prepareBlock_trace [OF prep] obtain l0 where
    l0: "trace w1 = trace w @ l0" "list_all (\<lambda>e. \<not> isSign e \<and> \<not> isCommit e) l0" by blast
  have no0: "EvSignBlock i m \<notin> set l0" using l0(2) by (auto simp: list_all_iff)
  show ?thesis
  proof (cases p)
    case (Inl r)
    then have "MakeBlock env w time = (r, w1)" unfolding MakeBlock_prepareBlock prep by simp
    then have "cycleTrace w (snd (MakeBlock env w time)) = l0"
      using l0(1) by (simp add: cycleTrace_append)
    with assms no0 show ?thesis by simp
  next
    case (Inr bs)
    obtain b s where bs: "bs = (b, s)" by (cases bs)
    from prepareBlock_row [OF prep [unfolded Inr bs]] obtain h where
      row: "pendingRow w1 = Some (b, h)" by blast
    obtain r1 tr1 where g: "getAndAddBlockSignatures env b (fst (chainState env)) (trace w1) = (r1, tr1)"
      by (cases "getAndAddBlockSignatures env b (fst (chainState env)) (trace w1)")
    from getAndAdd_trace [OF g] obtain l where
      l: "tr1 = trace w1 @ l"
        "\<forall>i m. EvSignBlock i m \<in> set l \<longrightarrow> MarshalText env b = Inr m \<and> i < length (signers env)"
      by blast
    obtain r tr where cb: "commitBlock env b s (fst (chainState env)) (trace w1) = (r, tr)"
      by (cases "commitBlock env b s (fst (chainState env)) (trace w1)")
    from cb g have "tr = tr1 \<or> (\<exists>b'. tr = tr1 @ [EvCommitAppliedBlock b' s])"
      by (auto simp: commitBlock_def split: res.splits option.splits)
    then obtain c where tr: "tr = trace w @ l0 @ l @ c" and c: "EvSignBlock i m \<notin> set c"
      using l(1) l0(1) by auto
    have mk: "MakeBlock env w time = (r, w1\<lparr>trace := tr\<rparr>)"
      unfolding MakeBlock_prepareBlock prep Inr bs using cb by simp
    have "cycleTrace w (snd (MakeBlock env w time)) = l0 @ l @ c"
      unfolding mk by (rule cycleTrace_append) (simp add: tr)
    with assms no0 c have "EvSignBlock i m \<in> set l" by simp
    with l(2) have "MarshalText env b = Inr m" by blast
    with row mk show ?thesis by simp
  qed
qed

text \<open>
  A round that starts the collection asks every configured signer, in the order of
  \<^verbatim>\<open>g.signers\<close>, with the one marshalled block, and adds nothing else to the trace but
  log lines.
\<close>

lemma getAndAdd_signs:
  fixes tr :: "('tx, 's) event list"
  assumes "ParseBlockMultiSigProgram env (ConsensusProgram pb) = Inr (keys, M)"
    and "\<not> int (length (signers env)) < M"
    and "MarshalText env b = Inr mb"
  shows "\<exists>l. snd (getAndAddBlockSignatures env b (Some pb) tr) =
           tr @ map (\<lambda>i. EvSignBlock i mb) [0..<length (signers env)] @ l \<and> list_all isLog l"
proof -
  let ?sg = "map (\<lambda>i. EvSignBlock i mb) [0..<length (signers env)] :: ('tx, 's) event list"
  let ?c = "collectLoop (Verify env) keys (Hash env b) (map (\<lambda>signer. signer mb) (signers env)) M
              (length (signers env)) (doneOrder env) 0 (replicate (length keys) None) 0 (tr @ ?sg)"
  have "snd (getAndAddBlockSignatures env b (Some pb) tr) = snd ?c"
    unfolding getAndAdd_collect [OF refl assms, of tr]
    by (auto split: res.splits prod.splits if_splits)
  moreover from collectLoop_trace [of "Verify env" keys "Hash env b"
      "map (\<lambda>signer. signer mb) (signers env)" M "length (signers env)" "doneOrder env" 0
      "replicate (length keys) None" 0 "tr @ ?sg"]
  obtain l where "snd ?c = (tr @ ?sg) @ l" "list_all isLog l" by blast
  ultimately show ?thesis by auto
qed

lemma commitBlock_after_signing:
  "\<exists>c. snd (commitBlock env b s lb tr) = snd (getAndAddBlockSignatures env b lb tr) @ c \<and>
       \<not> list_ex isSign c"
proof -
  obtain r1 tr1 where g: "getAndAddBlockSignatures env b lb tr = (r1, tr1)"
    by (cases "getAndAddBlockSignatures env b lb tr")
  have "snd (commitBlock env b s lb tr) = tr1 \<or>
        (\<exists>b'. snd (commitBlock env b s lb tr) = tr1 @ [EvCommitAppliedBlock b' s])"
    using g by (auto simp: commitBlock_def split: res.splits option.splits)
  then show ?thesis
  proof
    assume "snd (commitBlock env b s lb tr) = tr1"
    with g show ?thesis by (intro exI [of _ "[]"]) simp
  next
    assume "\<exists>b'. snd (commitBlock env b s lb tr) = tr1 @ [EvCommitAppliedBlock b' s]"
    then obtain b' where "snd (commitBlock env b s lb tr) = tr1 @ [EvCommitAppliedBlock b' s]" ..
    with g show ?thesis by (intro exI [of _ "[EvCommitAppliedBlock b' s]"]) simp
  qed
qed

lemma filter_isSign_logs: "list_all isLog l \<Longrightarrow> filter isSign l = []"
proof -
  have "isLog e \<Longrightarrow> \<not> isSign e" for e :: "('tx, 's) event" by (cases e) simp_all
  then show "list_all isLog l \<Longrightarrow> filter isSign l = []"
    by (auto simp: list_all_iff filter_empty_conv)
qed

lemma cycle_sign_requests:
  assumes prep: "prepareBlock env w time = (Inr (b, s), w1)"
    and head: "fst (chainState env) = Some pb"
    and parse: "ParseBlockMultiSigProgram env (ConsensusProgram pb) = Inr (keys, M)"
    and enough: "\<not> int (length (signers env)) < M"
    and marshal: "MarshalText env b = Inr mb"
  shows "filter isSign (cycleTrace w (snd (MakeBlock env w time))) =
           map (\<lambda>i. EvSignBlock i mb) [0..<length (signers env)]"
proof -
  let ?sg = "map (\<lambda>i. EvSignBlock i mb) [0..<length (signers env)] :: ('a, 'b) event list"
  from prepareBlock_trace [OF prep] obtain l0 where
    l0: "trace w1 = trace w @ l0" "list_all (\<lambda>e. \<not> isSign e \<and> \<not> isCommit e) l0" by blast
  from getAndAdd_signs [OF parse enough marshal, of "trace w1"] obtain l where
    l: "snd (getAndAddBlockSignatures env b (Some pb) (trace w1)) = trace w1 @ ?sg @ l"
      "list_all isLog l" by blast
  from commitBlock_after_signing [of env b s "Some pb" "trace w1"] obtain c where
    c: "snd (commitBlock env b s (Some pb) (trace w1)) =
          snd (getAndAddBlockSignatures env b (Some pb) (trace w1)) @ c" "\<not> list_ex isSign c"
    by blast
  obtain r tr where cb: "commitBlock env b s (Some pb) (trace w1) = (r, tr)"
    by (cases "commitBlock env b s (Some pb) (trace w1)")
  have tr: "tr = trace w @ (l0 @ ?sg @ l @ c)" using c(1) l(1) l0(1) cb by simp
  have mk: "trace (snd (MakeBlock env w time)) = trace w @ (l0 @ ?sg @ l @ c)"
    unfolding MakeBlock_prepareBlock prep head using cb tr by simp
  have ct: "cycleTrace w (snd (MakeBlock env w time)) = l0 @ ?sg @ l @ c"
    using mk by (rule cycleTrace_append)
  have f0: "filter isSign l0 = []" using l0(2) by (auto simp: list_all_iff filter_empty_conv)
  have fc: "filter isSign c = []" using c(2) by (auto simp: list_ex_iff filter_empty_conv)
  have fs: "filter isSign ?sg = ?sg" by (simp add: filter_map comp_def)
  show ?thesis unfolding ct using f0 fc fs filter_isSign_logs [OF l(2)] by simp
qed

lemma getAndAdd_Witness_trace:
  "snd (getAndAddBlockSignatures env (b\<lparr>Witness := wit\<rparr>) prev tr) =
   snd (getAndAddBlockSignatures env b prev tr)"
  by (auto simp: getAndAddBlockSignatures_def Let_def Hash_Witness MarshalText_Witness
      split: option.splits sum.splits prod.splits res.splits)

lemma reusesPending_row:
  assumes "reusesPending env w time"
  shows "pendingRow (snd (MakeBlock env w time)) = pendingRow w"
proof (cases "getPendingBlock env w")
  case (Inl err)
  then have "MakeBlock env w time = (Err (Wrap err ''retrieving the pending block''), w)"
    by (simp add: MakeBlock_def split: prod.splits)
  then show ?thesis by simp
next
  case (Inr pb)
  show ?thesis
  proof (cases "pendingUsable pb (fst (chainState env))")
    case True
    then obtain b where pb: "pb = Some b" by (cases pb) (simp_all add: pendingUsable_def)
    from reuse_shape [OF Inr [unfolded pb] True [unfolded pb], of time]
    obtain r l where "MakeBlock env w time = (r, w\<lparr>trace := trace w @ EvApplyBlock b # l\<rparr>)"
      by blast
    then show ?thesis by simp
  next
    case False
    from fresh_shape [OF Inr False, of time]
    obtain r w' l where mk: "MakeBlock env w time = (r, w')"
      and tr: "trace w' = trace w @ EvGenerateBlock (pool w) # l" by blast
    have "cycleTrace w (snd (MakeBlock env w time)) = EvGenerateBlock (pool w) # l"
      unfolding mk using tr by (simp add: cycleTrace_append)
    with assms show ?thesis by (simp add: reusesPending_def)
  qed
qed

lemma MakeBlock_read_failure:
  assumes "getPendingBlock env w = Inl err"
  shows "MakeBlock env w time = (Err (Wrap err ''retrieving the pending block''), w) \<and>
         \<not> reusesPending env w time \<and> \<not> generatesFresh env w time"
proof -
  have "MakeBlock env w time = (Err (Wrap err ''retrieving the pending block''), w)"
    using assms by (simp add: MakeBlock_def split: prod.splits)
  then show ?thesis by (simp add: reusesPending_def generatesFresh_def cycleTrace_def)
qed

section \<open>Claims\<close>

text \<open>
  C1. Let the cycle reach the signing stage with block \<open>b\<close>, let the consensus program
  of the previous block parse to the keys \<open>keys\<close> and the quorum \<open>M\<close>, with \<open>M\<close> not
  negative and not above the number of configured signers, the signers answering in any
  order (some may never answer), and let \<open>ps\<close> list at least \<open>M\<close> signers
  that answer, each paired with the key position to which its signature is attributed,
  the positions being distinct. Then the collection succeeds: \<^verbatim>\<open>MakeBlock\<close> commits the
  block with a witness \<open>wit\<close> of exactly \<open>M\<close> signatures and returns the hash of the
  block (or the wrapped error of the chain's commit). The witness is ordered by key
  position: its \<open>i\<close>-th entry is a signature returned by a signer and is attributed to
  the key at position \<open>ks ! i\<close>, where \<open>ks\<close> is strictly increasing. A signature is
  attributed to the first key under which it verifies; when it verifies under one key
  only, that is the key.
\<close>

theorem quorum_collected_witness:
  assumes prep: "prepareBlock env w time = (Inr (b, s), w1)"
    and head: "fst (chainState env) = Some pb"
    and parse: "ParseBlockMultiSigProgram env (ConsensusProgram pb) = Inr (keys, M)"
    and M: "0 \<le> M" "M \<le> int (length (signers env))"
    and marshal: "MarshalText env b = Inr mb"
    and sched: "distinct (doneOrder env)" "\<forall>j\<in>set (doneOrder env). j < length (signers env)"
    and sigs: "distinct (map snd ps)" "M \<le> int (length ps)"
      "\<forall>(j, k)\<in>set ps. j \<in> set (doneOrder env) \<and>
         (\<exists>sg. (signers env ! j) mb = Some sg \<and> firstVerifying (Verify env) keys (Hash env b) sg k)"
  shows "\<exists>wit ks l.
      MakeBlock env w time =
        ((case CommitAppliedBlock env (b\<lparr>Witness := wit\<rparr>) s of
            None \<Rightarrow> Ok (Hash env b) | Some err \<Rightarrow> Err (Wrap err ''commit'')),
         w1\<lparr>trace := trace w1 @ map (\<lambda>i. EvSignBlock i mb) [0..<length (signers env)] @ l @
                      [EvCommitAppliedBlock (b\<lparr>Witness := wit\<rparr>) s]\<rparr>) \<and>
      list_all isLog l \<and> int (length wit) = M \<and> length ks = length wit \<and> sorted_wrt (<) ks \<and>
      (\<forall>i<length wit.
         ks ! i < length keys \<and> Verify env (keys ! (ks ! i)) (Hash env b) (wit ! i) \<and>
         firstVerifying (Verify env) keys (Hash env b) (wit ! i) (ks ! i) \<and>
         (\<exists>j<length (signers env). (signers env ! j) mb = Some (wit ! i)))"
proof -
  let ?n = "length (signers env)"
  let ?replies = "map (\<lambda>signer. signer mb) (signers env)"
  let ?vf = "Verify env" and ?h = "Hash env b"
  let ?tr1 = "trace w1 @ map (\<lambda>i. EvSignBlock i mb) [0..<?n]"
  let ?good0 = "replicate (length keys) None :: bytes option list"
  have rng: "\<forall>j\<in>set (doneOrder env). j < length ?replies" using sched(2) by simp
  have len: "0 + length (doneOrder env) \<le> ?n"
    using distinct_bounded_length [OF sched] by simp
  have "\<forall>(j, k)\<in>set ps. j \<in> set (doneOrder env) \<and>
          (\<exists>sg. ?replies ! j = Some sg \<and> firstVerifying ?vf keys ?h sg k)"
    using sigs(3) sched(2) by fastforce
  from ps_matched [OF sigs(1) this]
  have "length ps \<le> card (matchedBy ?vf keys ?h (map ((!) ?replies) (doneOrder env)))" .
  with sigs(2)
  have enough: "M \<le> int (card (filled ?good0 \<union>
                   matchedBy ?vf keys ?h (map ((!) ?replies) (doneOrder env))))"
    by (simp add: filled_replicate)
  have zero: "(0::int) = int (card (filled ?good0))" by (simp add: filled_replicate)
  from collect_quorum [OF slotsOK_replicate zero M(1) enough len rng, of ?tr1]
  obtain good l where
    loop: "collectLoop ?vf keys ?h ?replies M ?n (doneOrder env) 0 ?good0 0 ?tr1 =
             (Ok (good, M), ?tr1 @ l)"
    and ok: "slotsOK ?vf keys ?h ?replies good" and cd: "int (card (filled good)) = M"
    and lg: "list_all isLog l"
    by blast
  let ?wit = "nonNilSigs good" and ?ks = "witnessSlots good"
  have nlt: "\<not> int ?n < M" using M(2) by simp
  have sign: "getAndAddBlockSignatures env b (Some pb) (trace w1) =
                (Ok (b\<lparr>Witness := ?wit\<rparr>), ?tr1 @ l)"
    using getAndAdd_collect [OF refl parse nlt marshal, of "trace w1"] loop by simp
  have commit: "commitBlock env b s (Some pb) (trace w1) =
      ((case CommitAppliedBlock env (b\<lparr>Witness := ?wit\<rparr>) s of
          None \<Rightarrow> Ok (Hash env b) | Some err \<Rightarrow> Err (Wrap err ''commit'')),
       ?tr1 @ l @ [EvCommitAppliedBlock (b\<lparr>Witness := ?wit\<rparr>) s])"
    unfolding commitBlock_def sign by (simp add: Hash_Witness split: option.split)
  have mk: "MakeBlock env w time =
      ((case CommitAppliedBlock env (b\<lparr>Witness := ?wit\<rparr>) s of
          None \<Rightarrow> Ok (Hash env b) | Some err \<Rightarrow> Err (Wrap err ''commit'')),
       w1\<lparr>trace := ?tr1 @ l @ [EvCommitAppliedBlock (b\<lparr>Witness := ?wit\<rparr>) s]\<rparr>)"
    unfolding MakeBlock_prepareBlock prep head by (simp add: commit)
  have lw: "length ?wit = length ?ks" by (simp add: nonNilSigs_witnessSlots)
  have lenw: "int (length ?wit) = M" using cd lw by (simp add: length_witnessSlots)
  have each: "?ks ! i < length keys \<and> ?vf (keys ! (?ks ! i)) ?h (?wit ! i) \<and>
              firstVerifying ?vf keys ?h (?wit ! i) (?ks ! i) \<and>
              (\<exists>j<?n. (signers env ! j) mb = Some (?wit ! i))" if "i < length ?wit" for i
  proof -
    from that lw have i: "i < length ?ks" by simp
    then have "?ks ! i \<in> filled good" using set_witnessSlots [of good] nth_mem by blast
    then obtain sg where k: "?ks ! i < length good" and g: "good ! (?ks ! i) = Some sg"
      by (auto simp: filled_def)
    have w: "?wit ! i = sg" using i g by (simp add: nonNilSigs_witnessSlots)
    from ok k g have fv: "firstVerifying ?vf keys ?h sg (?ks ! i)" and mem: "Some sg \<in> set ?replies"
      by (auto simp: slotsOK_def)
    from mem obtain j where "j < ?n" "(signers env ! j) mb = Some sg"
      by (auto simp: in_set_conv_nth)
    with fv w show ?thesis unfolding firstVerifying_iff by blast
  qed
  show ?thesis
    using mk lg lenw lw sorted_witnessSlots [of good] each
    by (intro exI [of _ ?wit] exI [of _ ?ks] exI [of _ l]) simp
qed

theorem quorum_collected_witness_example:
  "fst (MakeBlock exEnv exWorld 0) = Ok [7, 42, 43] \<and>
   length (trace (snd (MakeBlock exEnv exWorld 0))) = 6"
proof -
  have prep: "prepareBlock exEnv exWorld 0 =
      (Inr (exBlock, 12), exWorld\<lparr>pool := [], pendingRow := Some (exBlock, Some 5),
          trace := [EvGenerateBlock [42, 43], EvSavePendingBlock exBlock]\<rparr>)"
    by (simp add: prepareBlock_def exEnv_def exWorld_def exHead_def exBlock_def getPendingBlock_def
        savePendingBlock_def upsertPending_def Let_def)
  have head: "fst (chainState exEnv) = Some exHead" by (simp add: exEnv_def)
  have parse: "ParseBlockMultiSigProgram exEnv (ConsensusProgram exHead) = Inr ([[1], [2], [3]], 2)"
    by (simp add: exEnv_def exHead_def)
  have M: "(0::int) \<le> 2" "2 \<le> int (length (signers exEnv))" by (simp_all add: exEnv_def)
  have marshal: "MarshalText exEnv exBlock = Inr [9, 42, 43]"
    by (simp add: MarshalText_def exEnv_def exBlock_def)
  have sched: "distinct (doneOrder exEnv)" "\<forall>j\<in>set (doneOrder exEnv). j < length (signers exEnv)"
    by (simp_all add: exEnv_def)
  have sigs: "distinct (map snd [(2::nat, 0::nat), (0, 2)])" "2 \<le> int (length [(2::nat, 0::nat), (0, 2)])"
    "\<forall>(j, k)\<in>set [(2::nat, 0::nat), (0, 2)]. j \<in> set (doneOrder exEnv) \<and>
       (\<exists>sg. (signers exEnv ! j) [9, 42, 43] = Some sg \<and>
          firstVerifying (Verify exEnv) [[1], [2], [3]] (Hash exEnv exBlock) sg k)"
    by (simp_all add: exEnv_def exSigner_def exVerify_def exBlock_def Hash_def firstVerifying_def)
  from quorum_collected_witness [OF prep head parse M marshal sched sigs]
  obtain wit ks l where
    mk: "MakeBlock exEnv exWorld 0 =
        ((case CommitAppliedBlock exEnv (exBlock\<lparr>Witness := wit\<rparr>) 12 of
            None \<Rightarrow> Ok (Hash exEnv exBlock) | Some err \<Rightarrow> Err (Wrap err ''commit'')),
         exWorld\<lparr>pool := [], pendingRow := Some (exBlock, Some 5),
          trace := [EvGenerateBlock [42, 43], EvSavePendingBlock exBlock]\<rparr>
          \<lparr>trace := trace (exWorld\<lparr>pool := [], pendingRow := Some (exBlock, Some 5),
          trace := [EvGenerateBlock [42, 43], EvSavePendingBlock exBlock]\<rparr>) @
             map (\<lambda>i. EvSignBlock i [9, 42, 43]) [0..<length (signers exEnv)] @ l @
                      [EvCommitAppliedBlock (exBlock\<lparr>Witness := wit\<rparr>) 12]\<rparr>)"
    and "list_all isLog l" by blast
  have "fst (MakeBlock exEnv exWorld 0) = Ok [7, 42, 43]"
    unfolding mk by (simp add: exEnv_def Hash_def exBlock_def)
  moreover have "length (trace (snd (MakeBlock exEnv exWorld 0))) = 6"
    by (simp add: MakeBlock_def exEnv_def exWorld_def exHead_def getPendingBlock_def Hash_def MarshalText_def
    savePendingBlock_def upsertPending_def commitBlock_def getAndAddBlockSignatures_def exSigner_def exVerify_def
    indexKey_def nonNilSigs_def Let_def)
  ultimately show ?thesis by simp
qed

text \<open>
  C2. Let the cycle reach the signing stage with block \<open>b\<close> and start the collection
  (the program of the previous block parses to \<open>keys\<close> and \<open>M\<close>, enough signers are
  configured, the block marshals), and let every signer reply. If the number of
  distinct keys matched by the replies is less than \<open>M\<close>, \<^verbatim>\<open>MakeBlock\<close> returns the
  error of the collection, which carries that number and \<open>M\<close>, wrapped with "sign";
  \<^verbatim>\<open>CommitAppliedBlock\<close> is not called and the pending row stays as it was.
\<close>

theorem too_few_signatures_not_committed:
  assumes prep: "prepareBlock env w time = (Inr (b, s), w1)"
    and head: "fst (chainState env) = Some pb"
    and parse: "ParseBlockMultiSigProgram env (ConsensusProgram pb) = Inr (keys, M)"
    and enough: "\<not> int (length (signers env)) < M"
    and marshal: "MarshalText env b = Inr mb"
    and replied: "distinct (doneOrder env)" "set (doneOrder env) = {..<length (signers env)}"
    and few: "int (length (matchedKeys (Verify env) keys (Hash env b)
                (map (\<lambda>signer. signer mb) (signers env)))) < M"
  shows "fst (MakeBlock env w time) =
           Err (Wrap (ErrGotOf (int (length (matchedKeys (Verify env) keys (Hash env b)
                  (map (\<lambda>signer. signer mb) (signers env))))) M) ''sign'') \<and>
         \<not> list_ex isCommit (cycleTrace w (snd (MakeBlock env w time))) \<and>
         pendingRow (snd (MakeBlock env w time)) = pendingRow w1"
proof -
  let ?n = "length (signers env)"
  let ?replies = "map (\<lambda>signer. signer mb) (signers env)"
  let ?vf = "Verify env" and ?h = "Hash env b"
  let ?sg = "map (\<lambda>i. EvSignBlock i mb) [0..<?n] :: ('a, 'b) event list"
  let ?tr1 = "trace w1 @ ?sg"
  let ?good0 = "replicate (length keys) None :: bytes option list"
  let ?a = "int (length (matchedKeys ?vf keys ?h ?replies))"
  have rng: "\<forall>j\<in>set (doneOrder env). j < length ?replies" using replied(2) by auto
  have len: "0 + length (doneOrder env) = ?n"
    using distinct_card [OF replied(1)] replied(2) by simp
  have "set (map ((!) ?replies) (doneOrder env)) = set ?replies"
  proof -
    have "set (map ((!) ?replies) (doneOrder env)) = (!) ?replies ` {..<length ?replies}"
      using replied(2) by simp
    also have "\<dots> = set ?replies" by (rule nth_image_all)
    finally show ?thesis .
  qed
  then have mb: "matchedBy ?vf keys ?h (map ((!) ?replies) (doneOrder env)) =
                 matchedBy ?vf keys ?h ?replies"
    by (rule matchedBy_cong_set)
  have cnt: "int (card (filled ?good0 \<union> matchedBy ?vf keys ?h (map ((!) ?replies) (doneOrder env)))) = ?a"
    by (simp add: filled_replicate mb card_matchedBy)
  have zero: "(0::int) = int (card (filled ?good0))" by (simp add: filled_replicate)
  have short: "int (card (filled ?good0 \<union> matchedBy ?vf keys ?h (map ((!) ?replies) (doneOrder env)))) < M"
    using few cnt by simp
  from collect_short [OF slotsOK_replicate zero short len rng, of ?tr1]
  obtain good l where
    loop: "collectLoop ?vf keys ?h ?replies M ?n (doneOrder env) 0 ?good0 0 ?tr1 =
             (Ok (good, ?a), ?tr1 @ l)"
    and lg: "list_all isLog l"
    unfolding cnt by blast
  have sign: "getAndAddBlockSignatures env b (Some pb) (trace w1) = (Err (ErrGotOf ?a M), ?tr1 @ l)"
    using getAndAdd_collect [OF refl parse enough marshal, of "trace w1"] loop few by simp
  have commit: "commitBlock env b s (Some pb) (trace w1) = (Err (Wrap (ErrGotOf ?a M) ''sign''), ?tr1 @ l)"
    unfolding commitBlock_def sign by simp
  have mk: "MakeBlock env w time = (Err (Wrap (ErrGotOf ?a M) ''sign''), w1\<lparr>trace := ?tr1 @ l\<rparr>)"
    unfolding MakeBlock_prepareBlock prep head by (simp add: commit)
  from prepareBlock_trace [OF prep] obtain l0 where
    l0: "trace w1 = trace w @ l0" "list_all (\<lambda>e. \<not> isSign e \<and> \<not> isCommit e) l0" by blast
  have "isLog e \<Longrightarrow> \<not> isCommit e" for e :: "('a, 'b) event" by (cases e) simp_all
  with lg have nl: "\<not> list_ex isCommit l" by (auto simp: list_all_iff list_ex_iff)
  have n0: "\<not> list_ex isCommit l0" using l0(2) by (auto simp: list_all_iff list_ex_iff)
  have ns: "\<not> list_ex isCommit ?sg" by (auto simp: list_ex_iff)
  have "cycleTrace w (snd (MakeBlock env w time)) = l0 @ ?sg @ l"
    unfolding mk by (rule cycleTrace_append) (simp add: l0(1))
  then have "\<not> list_ex isCommit (cycleTrace w (snd (MakeBlock env w time)))"
    using nl n0 ns by (auto simp: list_ex_iff)
  then show ?thesis by (simp add: mk)
qed

theorem too_few_signatures_example:
  "fst (MakeBlock (exEnv\<lparr>signers := [exSigner [3], (\<lambda>m. None), exSigner [3]]\<rparr>) exWorld 0) =
     Err (Wrap (ErrGotOf 1 2) ''sign'')"
proof -
  let ?env = "exEnv\<lparr>signers := [exSigner [3], (\<lambda>m. None), exSigner [3]]\<rparr>"
  have prep: "prepareBlock ?env exWorld 0 =
      (Inr (exBlock, 12), exWorld\<lparr>pool := [], pendingRow := Some (exBlock, Some 5),
          trace := [EvGenerateBlock [42, 43], EvSavePendingBlock exBlock]\<rparr>)"
    by (simp add: prepareBlock_def exEnv_def exWorld_def exHead_def exBlock_def getPendingBlock_def
        savePendingBlock_def upsertPending_def Let_def)
  have head: "fst (chainState ?env) = Some exHead" by (simp add: exEnv_def)
  have parse: "ParseBlockMultiSigProgram ?env (ConsensusProgram exHead) = Inr ([[1], [2], [3]], 2)"
    by (simp add: exEnv_def exHead_def)
  have enough: "\<not> int (length (signers ?env)) < 2" by simp
  have marshal: "MarshalText ?env exBlock = Inr [9, 42, 43]"
    by (simp add: MarshalText_def exEnv_def exBlock_def)
  have replied: "distinct (doneOrder ?env)" "set (doneOrder ?env) = {..<length (signers ?env)}"
    by (auto simp: exEnv_def)
  have cnt: "matchedKeys (Verify ?env) [[1], [2], [3]] (Hash ?env exBlock)
                (map (\<lambda>signer. signer [9, 42, 43]) (signers ?env)) = [2]"
    by code_simp
  have few: "int (length (matchedKeys (Verify ?env) [[1], [2], [3]] (Hash ?env exBlock)
                (map (\<lambda>signer. signer [9, 42, 43]) (signers ?env)))) < 2"
    unfolding cnt by simp
  from too_few_signatures_not_committed [OF prep head parse enough marshal replied few]
  show ?thesis unfolding cnt by simp
qed

text \<open>
  C3. \<^verbatim>\<open>savePendingBlock\<close> returns no error exactly when the database calls do not fail
  and either no row exists or the height of the row is strictly less than the height
  of the block; the row then holds the block and its height. It returns
  \<^verbatim>\<open>errDuplicateBlock\<close> exactly when the database calls do not fail and the row exists
  with a height greater than or equal to the height of the block; the row is then
  unchanged. A failure of a database call is returned wrapped, which is never
  \<^verbatim>\<open>errDuplicateBlock\<close>; when the statement itself fails the row is unchanged.
\<close>

theorem savePendingBlock_conditional_upsert:
  "(fst (savePendingBlock env w b) = None \<longleftrightarrow>
      execErr env = None \<and> rowsAffectedErr env = None \<and> supersedes b (pendingRow w)) \<and>
   (fst (savePendingBlock env w b) = Some ErrDuplicateBlock \<longleftrightarrow>
      execErr env = None \<and> rowsAffectedErr env = None \<and> \<not> supersedes b (pendingRow w)) \<and>
   (fst (savePendingBlock env w b) = None \<longrightarrow>
      pendingRow (snd (savePendingBlock env w b)) = Some (b, Some (uint (Height b)))) \<and>
   (fst (savePendingBlock env w b) = Some ErrDuplicateBlock \<longrightarrow>
      pendingRow (snd (savePendingBlock env w b)) = pendingRow w) \<and>
   (\<forall>err. execErr env = Some err \<longrightarrow>
      fst (savePendingBlock env w b) = Some (Wrap err ''generator_pending_block insert query'') \<and>
      pendingRow (snd (savePendingBlock env w b)) = pendingRow w) \<and>
   (\<forall>err. execErr env = None \<and> rowsAffectedErr env = Some err \<longrightarrow>
      fst (savePendingBlock env w b) = Some (Wrap err ''generator_pending_block rows affected''))"
proof (cases "execErr env")
  case (Some err)
  then show ?thesis by (simp add: savePendingBlock_def Let_def)
next
  case None
  note ex = this
  obtain row n where up: "upsertPending (pendingRow w) b = (row, n)"
    by (cases "upsertPending (pendingRow w) b")
  have sup: "supersedes b (pendingRow w) \<Longrightarrow> row = Some (b, Some (uint (Height b))) \<and> n = 1"
    using up by (auto simp: supersedes_def upsertPending_def split: option.splits prod.splits)
  have nsup: "\<not> supersedes b (pendingRow w) \<Longrightarrow> row = pendingRow w \<and> n = 0"
    using up by (auto simp: supersedes_def upsertPending_def split: option.splits prod.splits)
  show ?thesis
  proof (cases "rowsAffectedErr env")
    case (Some err)
    with ex up show ?thesis by (simp add: savePendingBlock_def Let_def)
  next
    case None
    show ?thesis
    proof (cases "supersedes b (pendingRow w)")
      case True
      with sup ex None up show ?thesis by (simp add: savePendingBlock_def Let_def)
    next
      case False
      with nsup ex None up show ?thesis by (simp add: savePendingBlock_def Let_def)
    qed
  qed
qed

theorem savePendingBlock_example:
  "fst (savePendingBlock exEnv (exWorld\<lparr>pendingRow := Some (exBlock, Some 5)\<rparr>) exBlock) =
     Some ErrDuplicateBlock \<and>
   pendingRow (snd (savePendingBlock exEnv (exWorld\<lparr>pendingRow := Some (exBlock, Some 5)\<rparr>) exBlock)) =
     Some (exBlock, Some 5) \<and>
   fst (savePendingBlock exEnv (exWorld\<lparr>pendingRow := Some (exHead, Some 4)\<rparr>) exBlock) = None \<and>
   pendingRow (snd (savePendingBlock exEnv (exWorld\<lparr>pendingRow := Some (exHead, Some 4)\<rparr>) exBlock)) =
     Some (exBlock, Some 5)"
proof -
  let ?w = "exWorld\<lparr>pendingRow := Some (exBlock, Some 5)\<rparr>"
  let ?v = "exWorld\<lparr>pendingRow := Some (exHead, Some 4)\<rparr>"
  have io: "execErr exEnv = None \<and> rowsAffectedErr exEnv = None" by (simp add: exEnv_def)
  have dup: "\<not> supersedes exBlock (pendingRow ?w)" by (simp add: supersedes_def exBlock_def)
  have new: "supersedes exBlock (pendingRow ?v)" by (simp add: supersedes_def exBlock_def)
  have h: "uint (Height exBlock) = 5" by (simp add: exBlock_def)
  from savePendingBlock_conditional_upsert [of exEnv ?w exBlock]
    savePendingBlock_conditional_upsert [of exEnv ?v exBlock] io dup new h
  show ?thesis by simp
qed

text \<open>
  C4, as the spec states it, fails. With no head block and a pending block of height 5,
  the cycle reuses the pending block, although there is no head block whose height it
  could follow: the block is applied, nothing is generated and the pool is not swapped
  out. With a head at height 4 and a pending block at height 5, the cycle neither
  reuses nor generates when the read of the pending row fails, and it does not reach
  the signing stage when the pending block cannot be applied to the snapshot: the
  process exits.
\<close>

theorem pending_reused_without_head:
  "reusesPending (exEnv\<lparr>chainState := (None, 0)\<rparr>)
      (exWorld\<lparr>pendingRow := Some (exBlock, Some 5)\<rparr>) 0 \<and>
   \<not> generatesFresh (exEnv\<lparr>chainState := (None, 0)\<rparr>)
      (exWorld\<lparr>pendingRow := Some (exBlock, Some 5)\<rparr>) 0 \<and>
   \<not> pendingIsNext (Some exBlock) (fst (chainState (exEnv\<lparr>chainState := (None, 0)\<rparr>))) \<and>
   pool (snd (MakeBlock (exEnv\<lparr>chainState := (None, 0)\<rparr>)
      (exWorld\<lparr>pendingRow := Some (exBlock, Some 5)\<rparr>) 0)) = [42, 43] \<and>
   pendingIsNext (Some exBlock) (fst (chainState exEnv)) \<and>
   MakeBlock (exEnv\<lparr>queryErr := Some (ErrExternal ''io'')\<rparr>)
      (exWorld\<lparr>pendingRow := Some (exBlock, Some 5)\<rparr>) 0 =
     (Err (Wrap (Wrap (ErrExternal ''io'') ''retrieving generated pending block query'')
        ''retrieving the pending block''),
      exWorld\<lparr>pendingRow := Some (exBlock, Some 5)\<rparr>) \<and>
   MakeBlock (exEnv\<lparr>ApplyBlock := \<lambda>s b. Inl (ErrExternal ''apply'')\<rparr>)
      (exWorld\<lparr>pendingRow := Some (exBlock, Some 5)\<rparr>) 0 =
     (Abort (FatalExit (ErrExternal ''apply'')),
      exWorld\<lparr>pendingRow := Some (exBlock, Some 5), trace := [EvApplyBlock exBlock]\<rparr>)"
  by (simp add: reusesPending_def generatesFresh_def pendingIsNext_def cycleTrace_def
      MakeBlock_def exEnv_def exWorld_def exBlock_def exHead_def getPendingBlock_def
      commitBlock_def getAndAddBlockSignatures_def Hash_def Let_def)

text \<open>
  C4, amended. When the read of the pending block succeeds, the cycle reuses the pending
  block exactly when the test of line 57 holds: a pending block exists and either there
  is no head block or the height of the pending block is the head's plus one; in every
  other case it generates. On reuse the cycle is: apply the pending block to the (copied)
  head snapshot, exit on failure, otherwise \<^verbatim>\<open>commitBlock\<close> with that block; the pool is
  untouched, \<^verbatim>\<open>GenerateBlock\<close> is not called, and a hash that is returned is the hash of
  the pending block. When it generates, the pool is swapped out and handed to
  \<^verbatim>\<open>GenerateBlock\<close>. When the read of the pending block fails, \<^verbatim>\<open>MakeBlock\<close> returns
  the error of the read, wrapped, in an unchanged state: it neither reuses nor
  generates.
\<close>

theorem pending_block_reuse_condition:
  "(getPendingBlock env w = Inr pb \<longrightarrow>
      (reusesPending env w time \<longleftrightarrow> pendingUsable pb (fst (chainState env))) \<and>
      (generatesFresh env w time \<longleftrightarrow> \<not> pendingUsable pb (fst (chainState env))) \<and>
      (\<forall>b. pb = Some b \<and> pendingUsable pb (fst (chainState env)) \<longrightarrow>
         MakeBlock env w time =
           (case ApplyBlock env (snd (chainState env)) b of
              Inl err \<Rightarrow> (Abort (FatalExit err), w\<lparr>trace := trace w @ [EvApplyBlock b]\<rparr>)
            | Inr s \<Rightarrow>
                (let (r, tr) = commitBlock env b s (fst (chainState env))
                                 (trace w @ [EvApplyBlock b])
                 in (r, w\<lparr>trace := trace w @ [EvApplyBlock b], trace := tr\<rparr>))) \<and>
         pool (snd (MakeBlock env w time)) = pool w \<and>
         \<not> list_ex isGenerate (cycleTrace w (snd (MakeBlock env w time))) \<and>
         (\<forall>h. fst (MakeBlock env w time) = Ok h \<longrightarrow> h = Hash env b)) \<and>
      (\<not> pendingUsable pb (fst (chainState env)) \<longrightarrow>
         pool (snd (MakeBlock env w time)) = [] \<and>
         hd (cycleTrace w (snd (MakeBlock env w time))) = EvGenerateBlock (pool w))) \<and>
   (getPendingBlock env w = Inl err \<longrightarrow>
      MakeBlock env w time = (Err (Wrap err ''retrieving the pending block''), w) \<and>
      \<not> reusesPending env w time \<and> \<not> generatesFresh env w time)"
proof -
  have ok: "(reusesPending env w time \<longleftrightarrow> pendingUsable pb (fst (chainState env))) \<and>
      (generatesFresh env w time \<longleftrightarrow> \<not> pendingUsable pb (fst (chainState env))) \<and>
      (\<forall>b. pb = Some b \<and> pendingUsable pb (fst (chainState env)) \<longrightarrow>
         MakeBlock env w time =
           (case ApplyBlock env (snd (chainState env)) b of
              Inl err \<Rightarrow> (Abort (FatalExit err), w\<lparr>trace := trace w @ [EvApplyBlock b]\<rparr>)
            | Inr s \<Rightarrow>
                (let (r, tr) = commitBlock env b s (fst (chainState env))
                                 (trace w @ [EvApplyBlock b])
                 in (r, w\<lparr>trace := trace w @ [EvApplyBlock b], trace := tr\<rparr>))) \<and>
         pool (snd (MakeBlock env w time)) = pool w \<and>
         \<not> list_ex isGenerate (cycleTrace w (snd (MakeBlock env w time))) \<and>
         (\<forall>h. fst (MakeBlock env w time) = Ok h \<longrightarrow> h = Hash env b)) \<and>
      (\<not> pendingUsable pb (fst (chainState env)) \<longrightarrow>
         pool (snd (MakeBlock env w time)) = [] \<and>
         hd (cycleTrace w (snd (MakeBlock env w time))) = EvGenerateBlock (pool w))"
    if pend: "getPendingBlock env w = Inr pb"
  proof (cases "pendingUsable pb (fst (chainState env))")
    case True
    then obtain b where pb: "pb = Some b" by (cases pb) (simp_all add: pendingUsable_def)
    from reuse_shape [OF pend [unfolded pb] True [unfolded pb], of time]
    obtain r l where mk: "MakeBlock env w time = (r, w\<lparr>trace := trace w @ EvApplyBlock b # l\<rparr>)"
      and ng: "\<not> list_ex isGenerate l" and hs: "\<forall>h. r = Ok h \<longrightarrow> h = Hash env b" by blast
    have ct: "cycleTrace w (snd (MakeBlock env w time)) = EvApplyBlock b # l"
      unfolding mk by (rule cycleTrace_append) simp
    have "reusesPending env w time" "\<not> generatesFresh env w time"
      by (simp_all add: reusesPending_def generatesFresh_def ct)
    moreover have "\<not> list_ex isGenerate (cycleTrace w (snd (MakeBlock env w time)))"
      using ng by (simp add: ct)
    moreover have "pool (snd (MakeBlock env w time)) = pool w" by (simp add: mk)
    moreover have "\<forall>h. fst (MakeBlock env w time) = Ok h \<longrightarrow> h = Hash env b"
      using hs by (simp add: mk)
    ultimately show ?thesis
      using True pb MakeBlock_reuse [OF pend [unfolded pb] True [unfolded pb], of time] by simp
  next
    case False
    from fresh_shape [OF pend False, of time]
    obtain r w' l where mk: "MakeBlock env w time = (r, w')"
      and tr: "trace w' = trace w @ EvGenerateBlock (pool w) # l" and pl: "pool w' = []" by blast
    have ct: "cycleTrace w (snd (MakeBlock env w time)) = EvGenerateBlock (pool w) # l"
      unfolding mk using tr by (simp add: cycleTrace_append)
    have "\<not> reusesPending env w time" "generatesFresh env w time"
      by (simp_all add: reusesPending_def generatesFresh_def ct)
    then show ?thesis using False pl ct by (simp add: mk)
  qed
  have failed: "MakeBlock env w time = (Err (Wrap err ''retrieving the pending block''), w) \<and>
      \<not> reusesPending env w time \<and> \<not> generatesFresh env w time"
    if "getPendingBlock env w = Inl err"
    using that by (rule MakeBlock_read_failure)
  show ?thesis
    apply (rule conjI)
     apply (rule impI)
     apply (erule ok)
    apply (rule impI)
    apply (erule failed)
    done
qed

theorem pending_block_reuse_example:
  "reusesPending exEnv (exWorld\<lparr>pendingRow := Some (exBlock, Some 5)\<rparr>) 0 \<and>
   generatesFresh exEnv (exWorld\<lparr>pendingRow := Some (exHead, Some 4)\<rparr>) 0 \<and>
   fst (MakeBlock (exEnv\<lparr>queryErr := Some (ErrExternal ''io'')\<rparr>) exWorld 0) =
     Err (Wrap (Wrap (ErrExternal ''io'') ''retrieving generated pending block query'')
           ''retrieving the pending block'')"
proof -
  let ?w = "exWorld\<lparr>pendingRow := Some (exBlock, Some 5)\<rparr>"
  let ?v = "exWorld\<lparr>pendingRow := Some (exHead, Some 4)\<rparr>"
  let ?e = "exEnv\<lparr>queryErr := Some (ErrExternal ''io'')\<rparr>"
  have p1: "getPendingBlock exEnv ?w = Inr (Some exBlock)"
    by (simp add: getPendingBlock_def exEnv_def)
  have p2: "getPendingBlock exEnv ?v = Inr (Some exHead)"
    by (simp add: getPendingBlock_def exEnv_def)
  have p3: "getPendingBlock ?e exWorld =
      Inl (Wrap (ErrExternal ''io'') ''retrieving generated pending block query'')"
    by (simp add: getPendingBlock_def)
  have u1: "pendingUsable (Some exBlock) (fst (chainState exEnv))"
    by (simp add: pendingUsable_def exEnv_def exBlock_def exHead_def)
  have u2: "\<not> pendingUsable (Some exHead) (fst (chainState exEnv))"
    by (simp add: pendingUsable_def exEnv_def exHead_def)
  from pending_block_reuse_condition [of exEnv ?w "Some exBlock" 0] p1 u1
  have a: "reusesPending exEnv ?w 0" by blast
  from pending_block_reuse_condition [of exEnv ?v "Some exHead" 0] p2 u2
  have b: "generatesFresh exEnv ?v 0" by blast
  from pending_block_reuse_condition [of ?e exWorld _ 0
      "Wrap (ErrExternal ''io'') ''retrieving generated pending block query''"] p3
  have "MakeBlock ?e exWorld 0 =
      (Err (Wrap (Wrap (ErrExternal ''io'') ''retrieving generated pending block query'')
         ''retrieving the pending block''), exWorld)" by blast
  then have c: "fst (MakeBlock ?e exWorld 0) =
      Err (Wrap (Wrap (ErrExternal ''io'') ''retrieving generated pending block query'')
         ''retrieving the pending block'')" by simp
  from a b c show ?thesis by blast
qed

text \<open>
  C5. When the cycle generates (the read of the pending block succeeds and the test of
  line 57 fails) and the generated block has no transactions, \<^verbatim>\<open>MakeBlock\<close> returns the
  hash of the block with no error. The only thing the cycle has done is to swap out the
  pool and call \<^verbatim>\<open>GenerateBlock\<close>: the pending row is untouched, and there is no call
  of \<^verbatim>\<open>savePendingBlock\<close>, \<^verbatim>\<open>SignBlock\<close> or \<^verbatim>\<open>CommitAppliedBlock\<close>.
\<close>

theorem empty_block_returned_not_persisted:
  assumes pend: "getPendingBlock env w = Inr pb"
    and fresh: "\<not> pendingUsable pb (fst (chainState env))"
    and gen: "GenerateBlock env (fst (chainState env)) (snd (chainState env)) time (pool w) = Inr (b, s)"
    and empty: "Transactions b = []"
  shows "MakeBlock env w time =
           (Ok (Hash env b),
            w\<lparr>pool := [], poolHashes := Map.empty, trace := trace w @ [EvGenerateBlock (pool w)]\<rparr>) \<and>
         pendingRow (snd (MakeBlock env w time)) = pendingRow w \<and>
         cycleTrace w (snd (MakeBlock env w time)) = [EvGenerateBlock (pool w)]"
proof -
  have mk: "MakeBlock env w time =
           (Ok (Hash env b),
            w\<lparr>pool := [], poolHashes := Map.empty, trace := trace w @ [EvGenerateBlock (pool w)]\<rparr>)"
    unfolding MakeBlock_fresh [OF pend fresh] gen using empty by simp
  then show ?thesis by (simp add: cycleTrace_def)
qed

theorem empty_block_example:
  "MakeBlock exEnv (exWorld\<lparr>pool := []\<rparr>) 0 =
     (Ok [7], exWorld\<lparr>pool := [], trace := [EvGenerateBlock []]\<rparr>)"
proof -
  let ?w = "exWorld\<lparr>pool := []\<rparr>"
  have pend: "getPendingBlock exEnv ?w = Inr None"
    by (simp add: getPendingBlock_def exEnv_def exWorld_def)
  have fresh: "\<not> pendingUsable None (fst (chainState exEnv))" by (simp add: pendingUsable_def)
  have gen: "GenerateBlock exEnv (fst (chainState exEnv)) (snd (chainState exEnv)) 0 (pool ?w) =
      Inr (exBlock\<lparr>Transactions := []\<rparr>, 10)"
    by (simp add: exEnv_def exHead_def exBlock_def)
  have empty: "Transactions (exBlock\<lparr>Transactions := []\<rparr>) = []" by simp
  from empty_block_returned_not_persisted [OF pend fresh gen empty]
  show ?thesis by (simp add: Hash_def exEnv_def exWorld_def)
qed

text \<open>
  C6. When there is no head block and the block that reaches the signing stage has
  height 1, \<^verbatim>\<open>getAndAddBlockSignatures\<close> returns at once with the block as it is and
  with no event: no signer is asked, the witness is not written (an empty witness stays
  empty), and the next thing the cycle does is to call \<^verbatim>\<open>CommitAppliedBlock\<close> with that
  block.
\<close>

theorem initial_block_needs_no_signature:
  assumes prep: "prepareBlock env w time = (Inr (b, s), w1)"
    and head: "fst (chainState env) = None"
    and one: "Height b = 1"
  shows "getAndAddBlockSignatures env b None (trace w1) = (Ok b, trace w1) \<and>
         MakeBlock env w time =
           ((case CommitAppliedBlock env b s of
               None \<Rightarrow> Ok (Hash env b) | Some err \<Rightarrow> Err (Wrap err ''commit'')),
            w1\<lparr>trace := trace w1 @ [EvCommitAppliedBlock b s]\<rparr>) \<and>
         \<not> list_ex isSign (cycleTrace w (snd (MakeBlock env w time))) \<and>
         (Witness b = [] \<longrightarrow>
            last (cycleTrace w (snd (MakeBlock env w time))) =
              EvCommitAppliedBlock (b\<lparr>Witness := []\<rparr>) s)"
proof -
  have sign: "getAndAddBlockSignatures env b None (trace w1) = (Ok b, trace w1)"
    using one by (simp add: getAndAddBlockSignatures_def)
  have commit: "commitBlock env b s None (trace w1) =
      ((case CommitAppliedBlock env b s of
          None \<Rightarrow> Ok (Hash env b) | Some err \<Rightarrow> Err (Wrap err ''commit'')),
       trace w1 @ [EvCommitAppliedBlock b s])"
    unfolding commitBlock_def sign by (simp split: option.split)
  have mk: "MakeBlock env w time =
      ((case CommitAppliedBlock env b s of
          None \<Rightarrow> Ok (Hash env b) | Some err \<Rightarrow> Err (Wrap err ''commit'')),
       w1\<lparr>trace := trace w1 @ [EvCommitAppliedBlock b s]\<rparr>)"
    unfolding MakeBlock_prepareBlock prep head by (simp add: commit)
  from prepareBlock_trace [OF prep] obtain l0 where
    l0: "trace w1 = trace w @ l0" "list_all (\<lambda>e. \<not> isSign e \<and> \<not> isCommit e) l0" by blast
  have ct: "cycleTrace w (snd (MakeBlock env w time)) = l0 @ [EvCommitAppliedBlock b s]"
    unfolding mk by (rule cycleTrace_append) (simp add: l0(1))
  have "\<not> list_ex isSign (l0 @ [EvCommitAppliedBlock b s])"
    using l0(2) by (auto simp: list_all_iff list_ex_iff)
  moreover have "Witness b = [] \<Longrightarrow> b\<lparr>Witness := []\<rparr> = b" by simp
  ultimately show ?thesis using sign mk ct by simp
qed

theorem initial_block_example:
  "MakeBlock (exEnv\<lparr>chainState := (None, 0)\<rparr>) exWorld 0 =
     (Ok [7, 42, 43],
      exWorld\<lparr>pool := [],
        pendingRow := Some (\<lparr>Height = 1, Transactions = [42, 43], ConsensusProgram = [], Witness = []\<rparr>, Some 1),
        trace := [EvGenerateBlock [42, 43],
          EvSavePendingBlock \<lparr>Height = 1, Transactions = [42, 43], ConsensusProgram = [], Witness = []\<rparr>,
          EvCommitAppliedBlock \<lparr>Height = 1, Transactions = [42, 43], ConsensusProgram = [], Witness = []\<rparr> 2]\<rparr>)"
proof -
  let ?env = "exEnv\<lparr>chainState := (None, 0)\<rparr>"
  let ?b = "\<lparr>Height = 1, Transactions = [42, 43], ConsensusProgram = [], Witness = []\<rparr> :: 8 word block"
  have prep: "prepareBlock ?env exWorld 0 =
      (Inr (?b, 2), exWorld\<lparr>pool := [], pendingRow := Some (?b, Some 1),
          trace := [EvGenerateBlock [42, 43], EvSavePendingBlock ?b]\<rparr>)"
    by (simp add: prepareBlock_def exEnv_def exWorld_def getPendingBlock_def
        savePendingBlock_def upsertPending_def Let_def)
  have head: "fst (chainState ?env) = None" by simp
  have one: "Height ?b = 1" by simp
  from initial_block_needs_no_signature [OF prep head one]
  show ?thesis by (simp add: exEnv_def Hash_def exWorld_def)
qed

text \<open>
  C7. Let the cycle reach the signing stage, and let the consensus program of the
  previous block parse to a quorum \<open>M\<close> above the number of configured signers. Then
  \<^verbatim>\<open>MakeBlock\<close> returns \<^verbatim>\<open>errTooFewSigners\<close>, wrapped with "sign", and the cycle ends in
  the state in which it reached the signing stage: no signer is asked to sign and
  nothing is committed.
\<close>

theorem too_few_signers_no_request:
  assumes prep: "prepareBlock env w time = (Inr (b, s), w1)"
    and head: "fst (chainState env) = Some pb"
    and parse: "ParseBlockMultiSigProgram env (ConsensusProgram pb) = Inr (keys, M)"
    and few: "int (length (signers env)) < M"
  shows "MakeBlock env w time = (Err (Wrap ErrTooFewSigners ''sign''), w1) \<and>
         \<not> list_ex isSign (cycleTrace w (snd (MakeBlock env w time))) \<and>
         \<not> list_ex isCommit (cycleTrace w (snd (MakeBlock env w time)))"
proof -
  have sign: "getAndAddBlockSignatures env b (Some pb) (trace w1) = (Err ErrTooFewSigners, trace w1)"
    using parse few by (simp add: getAndAddBlockSignatures_def)
  have commit: "commitBlock env b s (Some pb) (trace w1) = (Err (Wrap ErrTooFewSigners ''sign''), trace w1)"
    unfolding commitBlock_def sign by simp
  have mk: "MakeBlock env w time = (Err (Wrap ErrTooFewSigners ''sign''), w1)"
    unfolding MakeBlock_prepareBlock prep head by (simp add: commit)
  from prepareBlock_trace [OF prep] obtain l0 where
    l0: "trace w1 = trace w @ l0" "list_all (\<lambda>e. \<not> isSign e \<and> \<not> isCommit e) l0" by blast
  have "cycleTrace w w1 = l0" using l0(1) by (rule cycleTrace_append)
  with l0(2) have "\<not> list_ex isSign (cycleTrace w w1) \<and> \<not> list_ex isCommit (cycleTrace w w1)"
    by (auto simp: list_all_iff list_ex_iff)
  then show ?thesis by (simp add: mk)
qed

theorem too_few_signers_example:
  "MakeBlock (exEnv\<lparr>signers := [exSigner [3]]\<rparr>) exWorld 0 =
     (Err (Wrap ErrTooFewSigners ''sign''),
      exWorld\<lparr>pool := [], pendingRow := Some (exBlock, Some 5),
          trace := [EvGenerateBlock [42, 43], EvSavePendingBlock exBlock]\<rparr>)"
proof -
  let ?env = "exEnv\<lparr>signers := [exSigner [3]]\<rparr>"
  have prep: "prepareBlock ?env exWorld 0 =
      (Inr (exBlock, 12), exWorld\<lparr>pool := [], pendingRow := Some (exBlock, Some 5),
          trace := [EvGenerateBlock [42, 43], EvSavePendingBlock exBlock]\<rparr>)"
    by (simp add: prepareBlock_def exEnv_def exWorld_def exHead_def exBlock_def getPendingBlock_def
        savePendingBlock_def upsertPending_def Let_def)
  have head: "fst (chainState ?env) = Some exHead" by (simp add: exEnv_def)
  have parse: "ParseBlockMultiSigProgram ?env (ConsensusProgram exHead) = Inr ([[1], [2], [3]], 2)"
    by (simp add: exEnv_def exHead_def)
  have few: "int (length (signers ?env)) < 2" by simp
  from too_few_signers_no_request [OF prep head parse few] show ?thesis by simp
qed

text \<open>
  C8. A cycle that starts the collection for a block asks every configured signer, each
  once and in the order of \<^verbatim>\<open>g.signers\<close>, and every request carries the same bytes, the
  \<^verbatim>\<open>MarshalText\<close> of the block; no round ever asks for a signature over other bytes.
  The bytes, and with them every request of the round, do not depend on the witness
  that the block carries. A block that \<^verbatim>\<open>savePendingBlock\<close> has stored is the block that
  a later \<^verbatim>\<open>getPendingBlock\<close> returns from that row, and when a later cycle, with the
  same encoding, recovers the pending row that a cycle has left, every request of the
  later cycle carries the bytes of every request of the earlier one.
\<close>

theorem signable_bytes_stable:
  "(prepareBlock env w time = (Inr (b, s), w1) \<and> fst (chainState env) = Some pb \<and>
    ParseBlockMultiSigProgram env (ConsensusProgram pb) = Inr (keys, M) \<and>
    \<not> int (length (signers env)) < M \<and> MarshalText env b = Inr mb \<longrightarrow>
      filter isSign (cycleTrace w (snd (MakeBlock env w time))) =
        map (\<lambda>i. EvSignBlock i mb) [0..<length (signers env)]) \<and>
   (EvSignBlock i m \<in> set (drop (length tr) (snd (getAndAddBlockSignatures env c prev tr))) \<longrightarrow>
      MarshalText env c = Inr m) \<and>
   snd (getAndAddBlockSignatures env (c\<lparr>Witness := wit\<rparr>) prev tr) =
     snd (getAndAddBlockSignatures env c prev tr) \<and>
   MarshalText env (c\<lparr>Witness := wit\<rparr>) = MarshalText env c \<and>
   (savePendingBlock env w0 c = (None, w2) \<and> pendingRow w' = pendingRow w2 \<and>
    queryErr env' = None \<longrightarrow> getPendingBlock env' w' = Inr (Some c)) \<and>
   (encodeBlock env' = encodeBlock env \<longrightarrow> MarshalText env' c = MarshalText env c) \<and>
   (encodeBlock env' = encodeBlock env \<and>
    pendingRow w' = pendingRow (snd (MakeBlock env w time)) \<and> reusesPending env' w' time' \<and>
    EvSignBlock i m \<in> set (cycleTrace w (snd (MakeBlock env w time))) \<and>
    EvSignBlock i' m' \<in> set (cycleTrace w' (snd (MakeBlock env' w' time'))) \<longrightarrow> m' = m)"
proof -
  have every: "filter isSign (cycleTrace w (snd (MakeBlock env w time))) =
        map (\<lambda>i. EvSignBlock i mb) [0..<length (signers env)]"
    if "prepareBlock env w time = (Inr (b, s), w1)" "fst (chainState env) = Some pb"
      "ParseBlockMultiSigProgram env (ConsensusProgram pb) = Inr (keys, M)"
      "\<not> int (length (signers env)) < M" "MarshalText env b = Inr mb"
    using that by (rule cycle_sign_requests)
  have one: "MarshalText env c = Inr m"
    if "EvSignBlock i m \<in> set (drop (length tr) (snd (getAndAddBlockSignatures env c prev tr)))"
  proof -
    obtain r tr1 where g: "getAndAddBlockSignatures env c prev tr = (r, tr1)"
      by (cases "getAndAddBlockSignatures env c prev tr")
    from getAndAdd_trace [OF g] obtain l where
      "tr1 = tr @ l"
      "\<forall>i m. EvSignBlock i m \<in> set l \<longrightarrow> MarshalText env c = Inr m \<and> i < length (signers env)"
      by blast
    with that g show ?thesis by simp
  qed
  have rec: "getPendingBlock env' w' = Inr (Some c)"
    if "savePendingBlock env w0 c = (None, w2)" "pendingRow w' = pendingRow w2"
      "queryErr env' = None"
  proof -
    have "pendingRow w2 = Some (c, Some (uint (Height c)))"
      using that(1) by (rule savePendingBlock_saved_row)
    with that(2,3) show ?thesis by (simp add: getPendingBlock_def)
  qed
  have enc: "MarshalText env' c = MarshalText env c" if "encodeBlock env' = encodeBlock env"
    using that by (simp add: MarshalText_def)
  have again: "m' = m"
    if e: "encodeBlock env' = encodeBlock env"
      and row: "pendingRow w' = pendingRow (snd (MakeBlock env w time))"
      and reuse: "reusesPending env' w' time'"
      and s1: "EvSignBlock i m \<in> set (cycleTrace w (snd (MakeBlock env w time)))"
      and s2: "EvSignBlock i' m' \<in> set (cycleTrace w' (snd (MakeBlock env' w' time')))"
  proof -
    from sign_request_only_for_saved_block [OF s1] obtain b1 h1 where
      r1: "pendingRow (snd (MakeBlock env w time)) = Some (b1, h1)" "MarshalText env b1 = Inr m"
      by blast
    from sign_request_only_for_saved_block [OF s2] obtain b2 h2 where
      r2: "pendingRow (snd (MakeBlock env' w' time')) = Some (b2, h2)"
        "MarshalText env' b2 = Inr m'"
      by blast
    have "pendingRow (snd (MakeBlock env' w' time')) = pendingRow w'"
      using reuse by (rule reusesPending_row)
    with row r1(1) r2(1) have "b2 = b1" by simp
    moreover have "MarshalText env' b1 = MarshalText env b1" using e by (simp add: MarshalText_def)
    ultimately show ?thesis using r1(2) r2(2) by simp
  qed
  show ?thesis
    using every one rec enc again
      getAndAdd_Witness_trace [where env = env and b = c and wit = wit and prev = prev and tr = tr]
      MarshalText_Witness [where env = env and b = c and wit = wit]
    by blast
qed

theorem signable_bytes_example:
  "filter isSign (cycleTrace exWorld (snd (MakeBlock exEnvW exWorld 0))) =
     [EvSignBlock 0 [9, 42, 43], EvSignBlock 1 [9, 42, 43], EvSignBlock 2 [9, 42, 43]] \<and>
   filter isSign (cycleTrace (exWorld\<lparr>pendingRow := Some (exBlock, Some 5)\<rparr>)
       (snd (MakeBlock exEnvW (exWorld\<lparr>pendingRow := Some (exBlock, Some 5)\<rparr>) 0))) =
     [EvSignBlock 0 [9, 42, 43], EvSignBlock 1 [9, 42, 43], EvSignBlock 2 [9, 42, 43]] \<and>
   pendingRow (snd (MakeBlock exEnvW exWorld 0)) = Some (exBlock, Some 5) \<and>
   getPendingBlock exEnvW (exWorld\<lparr>pendingRow := Some (exBlock, Some 5)\<rparr>) = Inr (Some exBlock) \<and>
   reusesPending exEnvW (exWorld\<lparr>pendingRow := Some (exBlock, Some 5)\<rparr>) 0 \<and>
   encodeBlock exEnvW (exBlock\<lparr>Witness := [[1, 7, 42, 43], [3, 7, 42, 43]]\<rparr>) =
     Inr [9, 42, 43, 1, 7, 42, 43, 3, 7, 42, 43] \<and>
   MarshalText exEnvW (exBlock\<lparr>Witness := [[1, 7, 42, 43], [3, 7, 42, 43]]\<rparr>) = Inr [9, 42, 43] \<and>
   snd (getAndAddBlockSignatures exEnvW (exBlock\<lparr>Witness := [[1, 7, 42, 43], [3, 7, 42, 43]]\<rparr>)
          (Some exHead) []) =
     [EvSignBlock 0 [9, 42, 43], EvSignBlock 1 [9, 42, 43], EvSignBlock 2 [9, 42, 43]]"
proof -
  let ?w1 = "exWorld\<lparr>pool := [], trace := [EvGenerateBlock [42, 43]]\<rparr>"
  let ?w2 = "exWorld\<lparr>pool := [], pendingRow := Some (exBlock, Some 5),
               trace := [EvGenerateBlock [42, 43], EvSavePendingBlock exBlock]\<rparr>"
  let ?v = "exWorld\<lparr>pendingRow := Some (exBlock, Some 5)\<rparr>"
  let ?wit = "[[1, 7, 42, 43], [3, 7, 42, 43]] :: bytes list"
  let ?sg = "[EvSignBlock 0 [9, 42, 43], EvSignBlock 1 [9, 42, 43], EvSignBlock 2 [9, 42, 43]]
               :: (8 word, nat) event list"
  have n: "map (\<lambda>i. EvSignBlock i [9, 42, 43]) [0..<length (signers exEnvW)] = ?sg"
    by (simp add: exEnvW_def exEnv_def upt_rec)
  have prep1: "prepareBlock exEnvW exWorld 0 = (Inr (exBlock, 12), ?w2)"
    by (simp add: prepareBlock_def exEnvW_def exEnv_def exWorld_def exHead_def exBlock_def
        getPendingBlock_def savePendingBlock_def upsertPending_def Let_def)
  have prep2: "prepareBlock exEnvW ?v 0 = (Inr (exBlock, 12), ?v\<lparr>trace := [EvApplyBlock exBlock]\<rparr>)"
    by (simp add: prepareBlock_def exEnvW_def exEnv_def exWorld_def exHead_def exBlock_def
        getPendingBlock_def Let_def)
  have head: "fst (chainState exEnvW) = Some exHead" by (simp add: exEnvW_def exEnv_def)
  have parse: "ParseBlockMultiSigProgram exEnvW (ConsensusProgram exHead) = Inr ([[1], [2], [3]], 2)"
    by (simp add: exEnvW_def exEnv_def exHead_def)
  have enough: "\<not> int (length (signers exEnvW)) < 2" by (simp add: exEnvW_def exEnv_def)
  have marshal: "MarshalText exEnvW exBlock = Inr [9, 42, 43]"
    by (simp add: MarshalText_def exEnvW_def exEnv_def exBlock_def)
  have save: "savePendingBlock exEnvW ?w1 exBlock = (None, ?w2)"
    by (simp add: savePendingBlock_def upsertPending_def exEnvW_def exEnv_def exWorld_def
        exBlock_def Let_def)
  have row: "pendingRow ?v = pendingRow ?w2" by simp
  have q: "queryErr exEnvW = None" by (simp add: exEnvW_def exEnv_def)
  have enc: "encodeBlock exEnvW (exBlock\<lparr>Witness := ?wit\<rparr>) =
      Inr [9, 42, 43, 1, 7, 42, 43, 3, 7, 42, 43]"
    by (simp add: exEnvW_def exBlock_def)
  have round: "snd (getAndAddBlockSignatures exEnvW exBlock (Some exHead) []) = ?sg"
    by (simp add: getAndAddBlockSignatures_def exEnvW_def exEnv_def exHead_def exBlock_def
        Hash_def MarshalText_def exSigner_def exVerify_def indexKey_def Let_def upt_rec)
  have reuse: "reusesPending exEnvW ?v 0"
    by (simp add: reusesPending_def cycleTrace_def MakeBlock_def exEnvW_def exEnv_def
        exWorld_def exBlock_def exHead_def getPendingBlock_def commitBlock_def
        getAndAddBlockSignatures_def Hash_def MarshalText_def exSigner_def exVerify_def
        indexKey_def nonNilSigs_def Let_def)
  note th1 = signable_bytes_stable [where env = exEnvW and w = exWorld and time = 0
      and b = exBlock and s = 12 and ?w1.0 = ?w2 and pb = exHead and keys = "[[1], [2], [3]]"
      and M = 2 and mb = "[9, 42, 43]" and c = exBlock and wit = ?wit and prev = "Some exHead"
      and tr = "[]" and ?w0.0 = ?w1 and ?w2.0 = ?w2 and w' = ?v and env' = exEnvW]
  note th2 = signable_bytes_stable [where env = exEnvW and w = ?v and time = 0
      and b = exBlock and s = 12 and ?w1.0 = "?v\<lparr>trace := [EvApplyBlock exBlock]\<rparr>"
      and pb = exHead and keys = "[[1], [2], [3]]" and M = 2 and mb = "[9, 42, 43]"]
  from th1 prep1 head parse enough marshal
  have a: "filter isSign (cycleTrace exWorld (snd (MakeBlock exEnvW exWorld 0))) = ?sg"
    unfolding n by blast
  from th2 prep2 head parse enough marshal
  have b: "filter isSign (cycleTrace ?v (snd (MakeBlock exEnvW ?v 0))) = ?sg"
    unfolding n by blast
  from th1 save row q
  have c: "getPendingBlock exEnvW ?v = Inr (Some exBlock)" by blast
  from th1 marshal
  have d: "MarshalText exEnvW (exBlock\<lparr>Witness := ?wit\<rparr>) = Inr [9, 42, 43]" by metis
  from th1 round
  have e: "snd (getAndAddBlockSignatures exEnvW (exBlock\<lparr>Witness := ?wit\<rparr>) (Some exHead) []) = ?sg"
    by metis
  have left: "pendingRow (snd (MakeBlock exEnvW exWorld 0)) = Some (exBlock, Some 5)"
    by (simp add: MakeBlock_def exEnvW_def exEnv_def exWorld_def exBlock_def exHead_def
        getPendingBlock_def savePendingBlock_def upsertPending_def commitBlock_def
        getAndAddBlockSignatures_def Hash_def MarshalText_def exSigner_def exVerify_def
        indexKey_def nonNilSigs_def Let_def)
  from a b left c reuse enc d e show ?thesis by blast
qed

text \<open>
  C9. When the cycle generates a block with at least one transaction, it calls
  \<^verbatim>\<open>savePendingBlock\<close> right after \<^verbatim>\<open>GenerateBlock\<close>. If that call returns an error, the
  cycle ends there with the error wrapped, and its trace is those two calls: no signer
  was asked. If it returns no error, the pending row holds the block, the rest of the
  cycle is \<^verbatim>\<open>commitBlock\<close> started in that state, the two calls stand before every
  other event of the cycle, in particular before every request to a signer, every
  such request is for the bytes of that block, and the row still holds the block at
  the end.
\<close>

theorem pending_block_saved_before_signing:
  assumes pend: "getPendingBlock env w = Inr pb"
    and fresh: "\<not> pendingUsable pb (fst (chainState env))"
    and gen: "GenerateBlock env (fst (chainState env)) (snd (chainState env)) time (pool w) = Inr (b, s)"
    and nonempty: "Transactions b \<noteq> []"
    and save: "savePendingBlock env
        (w\<lparr>pool := [], poolHashes := Map.empty, trace := trace w @ [EvGenerateBlock (pool w)]\<rparr>) b =
        (e, w2)"
  shows "cycleTrace w w2 = [EvGenerateBlock (pool w), EvSavePendingBlock b] \<and>
         (\<forall>err. e = Some err \<longrightarrow>
            MakeBlock env w time = (Err (Wrap err ''saving pending block''), w2)) \<and>
         (e = None \<longrightarrow>
            pendingRow w2 = Some (b, Some (uint (Height b))) \<and>
            MakeBlock env w time =
              (let (r, tr) = commitBlock env b s (fst (chainState env)) (trace w2)
               in (r, w2\<lparr>trace := tr\<rparr>)) \<and>
            pendingRow (snd (MakeBlock env w time)) = Some (b, Some (uint (Height b))) \<and>
            take 2 (cycleTrace w (snd (MakeBlock env w time))) =
              [EvGenerateBlock (pool w), EvSavePendingBlock b] \<and>
            \<not> list_ex isSave (drop 2 (cycleTrace w (snd (MakeBlock env w time)))) \<and>
            (\<forall>i m. EvSignBlock i m \<in> set (cycleTrace w (snd (MakeBlock env w time))) \<longrightarrow>
               MarshalText env b = Inr m))"
proof -
  let ?w1 = "w\<lparr>pool := [], poolHashes := Map.empty, trace := trace w @ [EvGenerateBlock (pool w)]\<rparr>"
  have tr2: "trace w2 = trace w @ [EvGenerateBlock (pool w), EvSavePendingBlock b]"
    using savePendingBlock_trace [of env ?w1 b] save by simp
  then have ct2: "cycleTrace w w2 = [EvGenerateBlock (pool w), EvSavePendingBlock b]"
    by (rule cycleTrace_append)
  have mk: "MakeBlock env w time =
     (case e of
        Some err \<Rightarrow> (Err (Wrap err ''saving pending block''), w2)
      | None \<Rightarrow> (let (r, tr) = commitBlock env b s (fst (chainState env)) (trace w2)
                 in (r, w2\<lparr>trace := tr\<rparr>)))"
    unfolding MakeBlock_fresh [OF pend fresh] gen using nonempty save
    by (simp split: option.split)
  have ok: "pendingRow w2 = Some (b, Some (uint (Height b))) \<and>
            pendingRow (snd (MakeBlock env w time)) = Some (b, Some (uint (Height b))) \<and>
            take 2 (cycleTrace w (snd (MakeBlock env w time))) =
              [EvGenerateBlock (pool w), EvSavePendingBlock b] \<and>
            \<not> list_ex isSave (drop 2 (cycleTrace w (snd (MakeBlock env w time)))) \<and>
            (\<forall>i m. EvSignBlock i m \<in> set (cycleTrace w (snd (MakeBlock env w time))) \<longrightarrow>
               MarshalText env b = Inr m)" if "e = None"
  proof -
    have row: "pendingRow w2 = Some (b, Some (uint (Height b)))"
      using savePendingBlock_saved_row [of env ?w1 b w2] save that by simp
    obtain r tr where cb: "commitBlock env b s (fst (chainState env)) (trace w2) = (r, tr)"
      by (cases "commitBlock env b s (fst (chainState env)) (trace w2)")
    from commitBlock_trace [OF cb] obtain l where
      l: "tr = trace w2 @ l" "list_all (\<lambda>e. \<not> isSave e \<and> \<not> isGenerate e) l" by blast
    have mk': "MakeBlock env w time = (r, w2\<lparr>trace := tr\<rparr>)" using mk that cb by simp
    have "cycleTrace w (snd (MakeBlock env w time)) =
            [EvGenerateBlock (pool w), EvSavePendingBlock b] @ l"
      unfolding mk' by (rule cycleTrace_append) (simp add: l(1) tr2)
    moreover have "\<not> list_ex isSave l" using l(2) by (auto simp: list_all_iff list_ex_iff)
    moreover have "MarshalText env b = Inr m"
      if "EvSignBlock i m \<in> set (cycleTrace w (snd (MakeBlock env w time)))" for i m
      using sign_request_only_for_saved_block [OF that] row mk' by auto
    ultimately show ?thesis using row mk' by simp
  qed
  show ?thesis using ct2 mk ok by simp
qed

theorem pending_block_saved_example:
  "take 3 (trace (snd (MakeBlock exEnv exWorld 0))) =
     [EvGenerateBlock [42, 43], EvSavePendingBlock exBlock, EvSignBlock 0 [9, 42, 43]] \<and>
   pendingRow (snd (MakeBlock exEnv exWorld 0)) = Some (exBlock, Some 5)"
proof -
  let ?w1 = "exWorld\<lparr>pool := [], poolHashes := Map.empty,
               trace := trace exWorld @ [EvGenerateBlock (pool exWorld)]\<rparr>"
  let ?w2 = "exWorld\<lparr>pool := [], pendingRow := Some (exBlock, Some 5),
               trace := [EvGenerateBlock [42, 43], EvSavePendingBlock exBlock]\<rparr>"
  have pend: "getPendingBlock exEnv exWorld = Inr None"
    by (simp add: getPendingBlock_def exEnv_def exWorld_def)
  have fresh: "\<not> pendingUsable None (fst (chainState exEnv))" by (simp add: pendingUsable_def)
  have gen: "GenerateBlock exEnv (fst (chainState exEnv)) (snd (chainState exEnv)) 0 (pool exWorld) =
      Inr (exBlock, 12)"
    by (simp add: exEnv_def exHead_def exBlock_def exWorld_def)
  have nonempty: "Transactions exBlock \<noteq> []" by (simp add: exBlock_def)
  have save: "savePendingBlock exEnv ?w1 exBlock = (None, ?w2)"
    by (simp add: savePendingBlock_def upsertPending_def exEnv_def exWorld_def exBlock_def Let_def)
  have h: "uint (Height exBlock) = 5" by (simp add: exBlock_def)
  have tr: "trace (snd (MakeBlock exEnv exWorld 0)) ! 2 = EvSignBlock 0 [9, 42, 43] \<and>
            length (trace (snd (MakeBlock exEnv exWorld 0))) = 6"
    by (simp add: MakeBlock_def exEnv_def exWorld_def exHead_def getPendingBlock_def Hash_def
        MarshalText_def savePendingBlock_def upsertPending_def commitBlock_def
        getAndAddBlockSignatures_def exSigner_def exVerify_def indexKey_def nonNilSigs_def Let_def)
  from pending_block_saved_before_signing [OF pend fresh gen nonempty save]
  have "pendingRow (snd (MakeBlock exEnv exWorld 0)) = Some (exBlock, Some (uint (Height exBlock)))"
    and "take 2 (cycleTrace exWorld (snd (MakeBlock exEnv exWorld 0))) =
              [EvGenerateBlock (pool exWorld), EvSavePendingBlock exBlock]"
    by blast+
  then have "pendingRow (snd (MakeBlock exEnv exWorld 0)) = Some (exBlock, Some 5)"
    and t2: "take 2 (trace (snd (MakeBlock exEnv exWorld 0))) =
              [EvGenerateBlock [42, 43], EvSavePendingBlock exBlock]"
    using h by (simp_all add: cycleTrace_def exWorld_def)
  moreover have "take 3 (trace (snd (MakeBlock exEnv exWorld 0))) =
     take 2 (trace (snd (MakeBlock exEnv exWorld 0))) @ [trace (snd (MakeBlock exEnv exWorld 0)) ! 2]"
    using tr by (simp add: take_Suc_conv_app_nth numeral_3_eq_3 numeral_2_eq_2)
  ultimately show ?thesis using tr by simp
qed

text \<open>
  C10. While the loop is receiving, a reply that is attributed to a key (the first key
  under which it verifies) whose slot is already filled changes nothing: \<^verbatim>\<open>goodSigs\<close>, \<^verbatim>\<open>nready\<close> and the trace are the same,
  no log line is written, and the loop goes on with the next receive. A reply that
  verifies under no key also leaves \<^verbatim>\<open>goodSigs\<close> and \<^verbatim>\<open>nready\<close> unchanged, but it is
  logged.
\<close>

theorem duplicate_signature_discarded:
  fixes tr :: "('tx, 's) event list"
  assumes run: "i < n" "nready < quorum"
    and reply: "j < length replies" "replies ! j = Some sg"
    and slots: "length good = length keys"
  shows "(\<forall>k. firstVerifying vf keys h sg k \<and> good ! k \<noteq> None \<longrightarrow>
            collectLoop vf keys h replies quorum n (j # ord) i good nready tr =
              collectLoop vf keys h replies quorum n ord (i + 1) good nready tr) \<and>
         ((\<forall>k<length keys. \<not> vf (keys ! k) h sg) \<longrightarrow>
            collectLoop vf keys h replies quorum n (j # ord) i good nready tr =
              collectLoop vf keys h replies quorum n ord (i + 1) good nready
                (tr @ [EvLogInvalidSignature sg]))"
proof (intro conjI allI impI)
  fix k assume "firstVerifying vf keys h sg k \<and> good ! k \<noteq> None"
  then have "indexKey vf keys h sg = int k" "good ! k \<noteq> None" by (simp_all add: indexKey_eq_iff)
  with run reply show "collectLoop vf keys h replies quorum n (j # ord) i good nready tr =
      collectLoop vf keys h replies quorum n ord (i + 1) good nready tr"
    by (auto simp: Let_def)
next
  assume "\<forall>k<length keys. \<not> vf (keys ! k) h sg"
  then have "indexKey vf keys h sg < 0" by (simp add: indexKey_neg_iff)
  with run reply show "collectLoop vf keys h replies quorum n (j # ord) i good nready tr =
      collectLoop vf keys h replies quorum n ord (i + 1) good nready (tr @ [EvLogInvalidSignature sg])"
    by (simp add: Let_def)
qed

theorem duplicate_signature_example:
  "collectLoop exVerify [[1], [2], [3]] [7] [Some [3, 7], Some [3, 7], Some [1, 7]] 2 3 [1, 2] 1
     [None, None, Some [3, 7]] 1 ([] :: (8 word, nat) event list) =
   (Ok ([Some [1, 7], None, Some [3, 7]], 2), [])"
proof -
  have run: "(1::nat) < 3" "(1::int) < 2" by simp_all
  have reply: "1 < length [Some [3, 7], Some [3, 7], Some [1, 7 :: 8 word]]"
    "[Some [3, 7], Some [3, 7], Some [1, 7 :: 8 word]] ! 1 = Some [3, 7]" by simp_all
  have fv: "firstVerifying exVerify [[1], [2], [3]] [7] [3, 7] 2 \<and>
            [None, None, Some [3, 7 :: 8 word]] ! 2 \<noteq> None"
    by (simp add: firstVerifying_def exVerify_def)
  have slots: "length [None, None, Some [3, 7 :: 8 word]] = length [[1], [2], [3 :: 8 word]]"
    by simp
  from duplicate_signature_discarded [OF run reply slots, of exVerify "[7]" "[2]"
      "[] :: (8 word, nat) event list"] fv
  have "collectLoop exVerify [[1], [2], [3]] [7] [Some [3, 7], Some [3, 7], Some [1, 7]] 2 3 [1, 2] 1
     [None, None, Some [3, 7]] 1 ([] :: (8 word, nat) event list) =
     collectLoop exVerify [[1], [2], [3]] [7] [Some [3, 7], Some [3, 7], Some [1, 7]] 2 3 [2] (1 + 1)
     [None, None, Some [3, 7]] 1 []"
    by blast
  also have "\<dots> = (Ok ([Some [1, 7], None, Some [3, 7]], 2), [])"
    by (simp add: indexKey_def exVerify_def)
  finally show ?thesis .
qed

end
